theory Spec2Isabelle
  imports Main "HOL-Library.Word" "HOL-Library.Product_Lexorder"
begin

section \<open>BufferedInput: the embedding\<close>

text \<open>
  A shallow embedding of \<^verbatim>\<open>velox/dwio/common/BufferedInput.cpp\<close>.
  \<^verbatim>\<open>uint64_t\<close> is \<open>64 word\<close>: \<open>+\<close> and \<open>-\<close> wrap, \<open>\<le>\<close> is the unsigned
  comparison, and an \<^verbatim>\<open>int64_t\<close> holding the same bits is read with \<open>sint\<close>.
  A \<^verbatim>\<open>DWIO_ENSURE\<close> that fails and a backend call that fails both throw:
  a function that can throw returns an \<open>error\<close>, together with the state the object
  is left in where it has been mutated before the throw.

  The header \<^verbatim>\<open>BufferedInput.h\<close> is not among the sources. The members are taken
  with the types the source uses them at: \<^verbatim>\<open>Region\<close> has the \<^verbatim>\<open>uint64_t\<close>
  fields \<^verbatim>\<open>offset\<close> and \<^verbatim>\<open>length\<close> (here \<open>length_r\<close>, as \<open>length\<close> is
  the length of a list), \<^verbatim>\<open>offsets_\<close> is a vector of \<^verbatim>\<open>uint64_t\<close>, and
  \<^verbatim>\<open>maxMergeDistance_\<close> is a \<^verbatim>\<open>uint64_t\<close>, which is what the source's remark on
  comparing different types says of it next to the \<^verbatim>\<open>int64_t\<close> gap.
\<close>

type_synonym u64 = "64 word"

definition MAX_UINT64 :: u64 where
  "MAX_UINT64 = 18446744073709551615"

record Region =
  offset :: u64
  length_r :: u64

datatype error = DwioEnsure string | IoError

subsection \<open>The backend and its statistics sink\<close>

text \<open>
  The statistics sink is external; it is the list of the values passed to
  \<^verbatim>\<open>incRawOverreadBytes\<close>, in call order. \<^verbatim>\<open>getStats()\<close> may be null:
  \<open>None\<close>.
\<close>

type_synonym IoStatistics = "u64 list"

definition incRawOverreadBytes :: "IoStatistics \<Rightarrow> u64 \<Rightarrow> IoStatistics" where
  "incRawOverreadBytes stats v = stats @ [v]"

text \<open>
  A buffer is known by its size; a pointer into a buffer by the buffer's position in
  \<^verbatim>\<open>buffers_\<close> and the displacement added to \<^verbatim>\<open>data()\<close>.
\<close>

datatype Buffer = Buffer (buffer_size: u64)

datatype ptr = Null | BufferPtr nat u64

text \<open>
  The backend \<^verbatim>\<open>input_\<close> is external too. It is the log of the calls made on it
  (\<^verbatim>\<open>read(buf, length, offset, logType)\<close> as \<open>Read length offset\<close>,
  \<^verbatim>\<open>vread(buffers, regions, logType)\<close> as \<open>VRead buffers regions\<close>) and its
  statistics sink. Whether a call throws is decided by a parameter \<open>fails\<close>, from the
  calls made before and the call itself. The log type is passed through unchanged and is
  left out.
\<close>

datatype backend_call = Read u64 u64 | VRead "Buffer list" "Region list"

record InputStream =
  stats :: "IoStatistics option"
  calls :: "backend_call list"

type_synonym failure = "backend_call list \<Rightarrow> backend_call \<Rightarrow> bool"

definition backend :: "failure \<Rightarrow> backend_call \<Rightarrow> InputStream \<Rightarrow> error option \<times> InputStream" where
  "backend fails c inp =
     ((if fails (calls inp) c then Some IoError else None), inp\<lparr>calls := calls inp @ [c]\<rparr>)"

definition read :: "failure \<Rightarrow> InputStream \<Rightarrow> u64 \<Rightarrow> u64 \<Rightarrow> error option \<times> InputStream" where
  "read fails inp len off = backend fails (Read len off) inp"

definition vread ::
  "failure \<Rightarrow> InputStream \<Rightarrow> Buffer list \<Rightarrow> Region list \<Rightarrow> error option \<times> InputStream" where
  "vread fails inp bufs regs = backend fails (VRead bufs regs) inp"

subsection \<open>The object\<close>

record BufferedInput =
  regions :: "Region list"
  offsets :: "u64 list"
  buffers :: "Buffer list"
  maxMergeDistance :: u64
  wsVRLoad :: bool
  input :: InputStream

text \<open>
  The stream handed out by \<^verbatim>\<open>enqueue\<close>: a \<^verbatim>\<open>SeekableArrayInputStream\<close> over
  a pointer and a size (ready), or one built from the callback that calls
  \<^verbatim>\<open>readInternal(region.offset, region.length)\<close> at first read (lazy).
\<close>

datatype SeekableInputStream = ArrayStream ptr u64 | LazyStream Region

subsection \<open>tryMerge and mergeRegions\<close>

text \<open>
  \<^verbatim>\<open>int64_t gap = second.offset - first.offset - first.length\<close> is computed on
  \<^verbatim>\<open>uint64_t\<close> and read as signed. In \<^verbatim>\<open>gap <= maxMergeDistance_\<close> the
  \<^verbatim>\<open>int64_t\<close> is converted to \<^verbatim>\<open>uint64_t\<close>: the comparison is unsigned.
  \<^verbatim>\<open>first\<close> is a reference: the function returns its new value.
\<close>

definition tryMerge ::
  "u64 \<Rightarrow> IoStatistics option \<Rightarrow> Region \<Rightarrow> Region
     \<Rightarrow> error + (bool \<times> Region \<times> IoStatistics option)" where
  "tryMerge mmd sink first second =
     (if \<not> offset first \<le> offset second
      then Inl (DwioEnsure ''regions should be sorted.'')
      else
        let gap = offset second - offset first - length_r first in
        if sint gap < 0 \<or> gap \<le> mmd then
          let extension = gap + length_r second in
          if 0 < sint extension then
            Inr (True,
                 first\<lparr>length_r := length_r first + extension\<rparr>,
                 (case sink of
                    Some s \<Rightarrow> if 0 < sint gap then Some (incRawOverreadBytes s gap) else sink
                  | None \<Rightarrow> sink))
          else Inr (True, first, sink)
        else Inr (False, first, sink))"

text \<open>
  The loop of \<^verbatim>\<open>mergeRegions\<close> on the array \<open>r\<close>, with the indices \<open>ia\<close> and
  \<open>ib\<close> of the source. It returns the array, \<open>ia\<close> and the sink; on a throw, as they
  are at the throw.
\<close>

function mergeRegions_loop ::
  "u64 \<Rightarrow> IoStatistics option \<Rightarrow> Region list \<Rightarrow> nat \<Rightarrow> nat
     \<Rightarrow> error option \<times> Region list \<times> nat \<times> IoStatistics option" where
  "mergeRegions_loop mmd sink r ia ib =
     (if ib < length r then
        if \<not> 0 < length_r (r ! ib) then (Some (DwioEnsure ''invalid region''), r, ia, sink)
        else
          (case tryMerge mmd sink (r ! ia) (r ! ib) of
             Inl e \<Rightarrow> (Some e, r, ia, sink)
           | Inr (merged, first', stats') \<Rightarrow>
               if \<not> merged
               then mergeRegions_loop mmd stats' ((r[ia := first'])[Suc ia := r ! ib]) (Suc ia) (Suc ib)
               else mergeRegions_loop mmd stats' (r[ia := first']) ia (Suc ib))
      else (None, r, ia, sink))"
  by pat_completeness auto
termination
  by (relation "measure (\<lambda>(mmd, sink, r, ia, ib). length r - ib)") auto

definition mergeRegions :: "BufferedInput \<Rightarrow> error option \<times> BufferedInput" where
  "mergeRegions st =
     (let r = regions st in
      if r = [] then (Some (DwioEnsure ''Assumes that there's at least one region''), st)
      else if \<not> 0 < length_r (r ! 0) then (Some (DwioEnsure ''invalid region''), st)
      else
        (case mergeRegions_loop (maxMergeDistance st) (stats (input st)) r 0 1 of
           (Some e, r', ia, stats') \<Rightarrow>
             (Some e, st\<lparr>regions := r', input := (input st)\<lparr>stats := stats'\<rparr>\<rparr>)
         | (None, r', ia, stats') \<Rightarrow>
             (None, st\<lparr>regions := take (ia + 1) r', input := (input st)\<lparr>stats := stats'\<rparr>\<rparr>)))"

subsection \<open>load\<close>

text \<open>
  \<^verbatim>\<open>allocPool_->clear()\<close> and the two \<^verbatim>\<open>reserve\<close> calls of \<open>load\<close> change
  nothing that is modelled (a buffer is known by its size only) and are left out.
  \<^verbatim>\<open>std::sort\<close> is \<open>sort_key\<close> on the key of the comparison: regions with equal
  keys are equal, so the sorted list does not depend on the sorting algorithm.
\<close>

text \<open>
  Modelled from the spec: \<^verbatim>\<open>Region::operator<\<close>, which \<^verbatim>\<open>std::sort\<close> uses, is
  declared in a header that is not among the sources. The spec: tie-breaking during sort
  is by (offset, length) ascending.
\<close>

definition region_key :: "Region \<Rightarrow> u64 \<times> u64" where
  "region_key r = (offset r, length_r r)"

text \<open>
  The per-region action of \<^verbatim>\<open>loadWithAction\<close>: it gets the buffer, the length and
  the offset, and works on the object and on the locals \<open>'l\<close> that the lambda captures.
\<close>

type_synonym 'l action =
  "Buffer \<Rightarrow> u64 \<Rightarrow> u64 \<Rightarrow> BufferedInput \<times> 'l \<Rightarrow> error option \<times> (BufferedInput \<times> 'l)"

text \<open>
  Modelled from the spec: \<^verbatim>\<open>readRegion\<close> is defined in a header that is not among
  the sources. The spec: for each merged region, allocate a buffer of exactly that length
  from the pool, append its starting offset to \<open>offsets\<close> and the buffer to \<open>buffers\<close>;
  then the read is dispatched through the action.
\<close>

definition readRegion ::
  "Region \<Rightarrow> 'l action \<Rightarrow> BufferedInput \<times> 'l \<Rightarrow> error option \<times> (BufferedInput \<times> 'l)" where
  "readRegion region act w =
     (let st = fst w;
          buf = Buffer (length_r region);
          st' = st\<lparr>offsets := offsets st @ [offset region], buffers := buffers st @ [buf]\<rparr>
      in act buf (length_r region) (offset region) (st', snd w))"

fun loadWithAction_loop ::
  "'l action \<Rightarrow> Region list \<Rightarrow> BufferedInput \<times> 'l \<Rightarrow> error option \<times> (BufferedInput \<times> 'l)" where
  "loadWithAction_loop act [] w = (None, w)"
| "loadWithAction_loop act (region # rest) w =
     (case readRegion region act w of
        (Some e, w') \<Rightarrow> (Some e, w')
      | (None, w') \<Rightarrow> loadWithAction_loop act rest w')"

definition loadWithAction ::
  "'l action \<Rightarrow> BufferedInput \<times> 'l \<Rightarrow> error option \<times> (BufferedInput \<times> 'l)" where
  "loadWithAction act w = loadWithAction_loop act (regions (fst w)) w"

text \<open>The two lambdas of \<^verbatim>\<open>load\<close>.\<close>

definition collect_action :: "(Buffer list \<times> Region list \<times> u64) action" where
  "collect_action buf len off w =
     (case snd w of
        (bufs, regs, sizeToRead) \<Rightarrow>
          (None, (fst w, (bufs @ [buf], regs @ [\<lparr>offset = off, length_r = len\<rparr>], sizeToRead + len))))"

definition read_action :: "failure \<Rightarrow> unit action" where
  "read_action fails buf len off w =
     (case read fails (input (fst w)) len off of
        (e, inp) \<Rightarrow> (e, ((fst w)\<lparr>input := inp\<rparr>, ())))"

definition load :: "failure \<Rightarrow> BufferedInput \<Rightarrow> error option \<times> BufferedInput" where
  "load fails st =
     (if length (regions st) = 0 then (None, st)
      else
        let st1 = st\<lparr>offsets := [], buffers := []\<rparr>;
            st2 = st1\<lparr>regions := sort_key region_key (regions st1)\<rparr>
        in
          (case mergeRegions st2 of
             (Some e, st3) \<Rightarrow> (Some e, st3)
           | (None, st3) \<Rightarrow>
               if wsVRLoad st3 then
                 (case loadWithAction collect_action (st3, ([], [], 0)) of
                    (Some e, w) \<Rightarrow> (Some e, fst w)
                  | (None, w) \<Rightarrow>
                      (case snd w of
                         (bufs, regs, sizeToRead) \<Rightarrow>
                           (case vread fails (input (fst w)) bufs regs of
                              (Some e, inp) \<Rightarrow> (Some e, (fst w)\<lparr>input := inp\<rparr>)
                            | (None, inp) \<Rightarrow> (None, (fst w)\<lparr>input := inp, regions := []\<rparr>))))
               else
                 (case loadWithAction (read_action fails) (st3, ()) of
                    (Some e, w) \<Rightarrow> (Some e, fst w)
                  | (None, w) \<Rightarrow> (None, (fst w)\<lparr>regions := []\<rparr>))))"

subsection \<open>readInternal, readBuffer, enqueue\<close>

text \<open>
  \<^verbatim>\<open>std::upper_bound\<close> on the sorted \<^verbatim>\<open>offsets_\<close>: the position of the first
  element that the value is less than.
\<close>

definition upper_bound :: "u64 list \<Rightarrow> u64 \<Rightarrow> nat" where
  "upper_bound xs v = length (takeWhile (\<lambda>x. \<not> v < x) xs)"

definition readInternal :: "BufferedInput \<Rightarrow> u64 \<Rightarrow> u64 \<Rightarrow> error + (ptr \<times> u64)" where
  "readInternal st offs len =
     (if len = 0 then Inr (Null, 0)
      else
        let it = upper_bound (offsets st) offs in
        if it \<noteq> 0 then
          let index = it - 1;
              bufferOffset = offsets st ! index;
              buffer = buffers st ! index
          in
            if offs + len \<le> bufferOffset + buffer_size buffer then
              if \<not> bufferOffset \<le> offs
              then Inl (DwioEnsure ''Invalid offset for readInternal'')
              else if \<not> (offs - bufferOffset) + len \<le> buffer_size buffer
              then Inl (DwioEnsure ''Invalid readOffset for read Internal '')
              else Inr (BufferPtr index (offs - bufferOffset), len)
            else Inr (Null, MAX_UINT64)
        else Inr (Null, MAX_UINT64))"

definition readBuffer ::
  "BufferedInput \<Rightarrow> u64 \<Rightarrow> u64 \<Rightarrow> error + SeekableInputStream option" where
  "readBuffer st offs len =
     (case readInternal st offs len of
        Inl e \<Rightarrow> Inl e
      | Inr result \<Rightarrow>
          let size_r = snd result in
          if size_r = MAX_UINT64 then Inr None
          else Inr (Some (ArrayStream (fst result) size_r)))"

definition enqueue ::
  "BufferedInput \<Rightarrow> Region \<Rightarrow> error + (SeekableInputStream \<times> BufferedInput)" where
  "enqueue st region =
     (if length_r region = 0 then Inr (ArrayStream Null 0, st)
      else
        (case readBuffer st (offset region) (length_r region) of
           Inl e \<Rightarrow> Inl e
         | Inr (Some ret) \<Rightarrow> Inr (ret, st)
         | Inr None \<Rightarrow> Inr (LazyStream region, st\<lparr>regions := regions st @ [region]\<rparr>)))"


section \<open>The specification's notions\<close>

text \<open>
  The specification speaks of byte intervals over unbounded integers. A region
  \<open>[a, a + la)\<close> ends at \<open>region_end\<close>; it lies in the signed 64-bit offset range when
  that end is below \<open>2 ^ 63\<close>.
\<close>

definition region_end :: "Region \<Rightarrow> int" where
  "region_end r = uint (offset r) + uint (length_r r)"

definition in_range :: "Region \<Rightarrow> bool" where
  "in_range r \<longleftrightarrow> region_end r < 2 ^ 63"

text \<open>
  The gap \<open>g = b - (a + la)\<close>, the merge rule (B lies inside A, or \<open>g\<close> is at most
  the merge distance) and the merged length \<open>max la ((b - a) + lb)\<close>, in the
  specification's words.
\<close>

definition gap_spec :: "Region \<Rightarrow> Region \<Rightarrow> int" where
  "gap_spec A B = uint (offset B) - region_end A"

definition merges_spec :: "u64 \<Rightarrow> Region \<Rightarrow> Region \<Rightarrow> bool" where
  "merges_spec mmd A B \<longleftrightarrow> region_end B \<le> region_end A \<or> gap_spec A B \<le> uint mmd"

definition merged_length_spec :: "Region \<Rightarrow> Region \<Rightarrow> int" where
  "merged_length_spec A B =
     max (uint (length_r A)) ((uint (offset B) - uint (offset A)) + uint (length_r B))"


text \<open>
  The loop of \<open>mergeRegions\<close> read as a recursion on the list: the region being grown
  and the regions still to come. It is compared with the loop on the array below.
\<close>

fun coalesce ::
  "u64 \<Rightarrow> IoStatistics option \<Rightarrow> Region \<Rightarrow> Region list \<Rightarrow> Region list \<times> IoStatistics option" where
  "coalesce mmd sink cur [] = ([cur], sink)"
| "coalesce mmd sink cur (x # xs) =
     (case tryMerge mmd sink cur x of
        Inl e \<Rightarrow> ([cur], sink)
      | Inr (merged, cur', sink') \<Rightarrow>
          if merged then coalesce mmd sink' cur' xs
          else (case coalesce mmd sink' x xs of (out, sink'') \<Rightarrow> (cur' # out, sink'')))"

text \<open>
  Two merged regions are separated when the gap between the end of the first and the
  start of the second is strictly greater than the merge distance.
\<close>

definition separated :: "u64 \<Rightarrow> Region \<Rightarrow> Region \<Rightarrow> bool" where
  "separated mmd A B \<longleftrightarrow> uint mmd < gap_spec A B"

definition increasing_offsets :: "Region list \<Rightarrow> bool" where
  "increasing_offsets rs \<longleftrightarrow> sorted_wrt (\<lambda>A B. offset A < offset B) rs"

definition pairwise_separated :: "u64 \<Rightarrow> Region list \<Rightarrow> bool" where
  "pairwise_separated mmd rs \<longleftrightarrow> sorted_wrt (separated mmd) rs"

text \<open>The byte ranges that the buffer index holds, entry by entry.\<close>

definition index_regions :: "BufferedInput \<Rightarrow> Region list" where
  "index_regions st =
     map (\<lambda>e. \<lparr>offset = fst e, length_r = buffer_size (snd e)\<rparr>) (zip (offsets st) (buffers st))"

definition index_separated :: "BufferedInput \<Rightarrow> bool" where
  "index_separated st \<longleftrightarrow>
     length (offsets st) = length (buffers st)
     \<and> increasing_offsets (index_regions st)
     \<and> pairwise_separated (maxMergeDistance st) (index_regions st)"


text \<open>
  What \<open>load\<close> works on: the regions as sorted; the merged regions, which are what
  the call of \<open>mergeRegions\<close> in \<open>load\<close> leaves in the region list; the read calls of
  the scalar path for a list of regions, and the buffers allocated for them.
\<close>

definition sorted_regions :: "BufferedInput \<Rightarrow> Region list" where
  "sorted_regions st = sort_key region_key (regions st)"

definition merged_regions :: "BufferedInput \<Rightarrow> Region list" where
  "merged_regions st =
     regions (snd (mergeRegions
       (st\<lparr>offsets := [], buffers := [], regions := sort_key region_key (regions st)\<rparr>)))"

text \<open>The same list and the sink, by the recursion on the list.\<close>

definition coalesced_regions :: "BufferedInput \<Rightarrow> Region list" where
  "coalesced_regions st =
     fst (coalesce (maxMergeDistance st) (stats (input st))
            (hd (sorted_regions st)) (tl (sorted_regions st)))"

definition coalesced_stats :: "BufferedInput \<Rightarrow> IoStatistics option" where
  "coalesced_stats st =
     snd (coalesce (maxMergeDistance st) (stats (input st))
            (hd (sorted_regions st)) (tl (sorted_regions st)))"

definition reads_of :: "Region list \<Rightarrow> backend_call list" where
  "reads_of rs = map (\<lambda>r. Read (length_r r) (offset r)) rs"

definition buffers_of :: "Region list \<Rightarrow> Buffer list" where
  "buffers_of rs = map (\<lambda>r. Buffer (length_r r)) rs"


text \<open>
  Over-read accounting in the specification's words, on unbounded integers: a region is
  a pair (offset, length); going through the sorted regions, the next region B merges
  into the current merged region A when it lies inside A or the gap \<open>g\<close> is at most the
  merge distance; a merge with \<open>g > 0\<close> contributes \<open>g\<close>, a merge by overlap or
  containment and a pair that does not merge contribute nothing.
\<close>

fun overread_spec :: "int \<Rightarrow> int \<times> int \<Rightarrow> (int \<times> int) list \<Rightarrow> int" where
  "overread_spec m A [] = 0"
| "overread_spec m A (B # rest) =
     (let g = fst B - (fst A + snd A) in
      if fst B + snd B \<le> fst A + snd A \<or> g \<le> m
      then (if 0 < g then g else 0)
             + overread_spec m (fst A, max (snd A) ((fst B - fst A) + snd B)) rest
      else overread_spec m B rest)"

definition region_ints :: "Region \<Rightarrow> int \<times> int" where
  "region_ints r = (uint (offset r), uint (length_r r))"


text \<open>
  Lookup in the specification's words, on unbounded integers: the largest index \<open>i\<close>
  with \<open>offsets[i] \<le> offset\<close>; the coverage \<open>offsets[i] + size \<ge> offset + length\<close>;
  the subspan of buffer \<open>i\<close> that starts at \<open>offset - offsets[i]\<close>, or the sentinel.
\<close>

definition largest_le :: "u64 list \<Rightarrow> u64 \<Rightarrow> nat option" where
  "largest_le xs v =
     (let js = filter (\<lambda>i. xs ! i \<le> v) [0..<length xs]
      in if js = [] then None else Some (last js))"

definition readInternal_spec :: "BufferedInput \<Rightarrow> u64 \<Rightarrow> u64 \<Rightarrow> ptr \<times> u64" where
  "readInternal_spec st offs len =
     (if len = 0 then (Null, 0)
      else
        (case largest_le (offsets st) offs of
           None \<Rightarrow> (Null, MAX_UINT64)
         | Some i \<Rightarrow>
             if uint offs + uint len
                  \<le> uint (offsets st ! i) + uint (buffer_size (buffers st ! i))
             then (BufferPtr i (offs - offsets st ! i), len)
             else (Null, MAX_UINT64)))"

text \<open>A pointer and a size denote bytes of one buffer when the span stays inside it.\<close>

definition in_buffer :: "BufferedInput \<Rightarrow> ptr \<Rightarrow> u64 \<Rightarrow> bool" where
  "in_buffer st p n =
     (case p of
        Null \<Rightarrow> False
      | BufferPtr i d \<Rightarrow>
          i < length (buffers st) \<and> uint d + uint n \<le> uint (buffer_size (buffers st ! i)))"



definition index_inv :: "BufferedInput \<Rightarrow> bool" where
  "index_inv st \<longleftrightarrow>
     length (offsets st) = length (buffers st)
     \<and> list_all in_range (index_regions st)
     \<and> sorted_wrt (\<lambda>A B. region_end A \<le> uint (offset B)) (index_regions st)"


section \<open>ParallelFor: the embedding\<close>

text \<open>
  \<^verbatim>\<open>ParallelFor.h\<close> and \<^verbatim>\<open>ParallelFor.cpp\<close> are not among the sources; only the
  test \<^verbatim>\<open>ParallelForTest.cpp\<close> is. The executor of the test and its two user
  functions are modelled from the test, \<open>ParallelFor\<close> itself from the specification.
  Tasks run one after the other, each when it is submitted, as they do on the
  \<^verbatim>\<open>InlineExecutor\<close> of the test; how often an index is visited does not depend on
  that order.
\<close>

datatype velox_error = VeloxRuntimeError

datatype MODE = INDEX | RANGE

text \<open>
  \<^verbatim>\<open>CountingExecutor::add\<close> of the test: the task is handed to the wrapped executor,
  which runs it on the state \<open>'w\<close> the user function works on, and the count goes up.
\<close>

record CountingExecutor =
  count :: nat

definition CountingExecutor_add ::
  "('w \<Rightarrow> 'w) \<Rightarrow> CountingExecutor \<times> 'w \<Rightarrow> CountingExecutor \<times> 'w" where
  "CountingExecutor_add f ew = ((fst ew)\<lparr>count := count (fst ew) + 1\<rparr>, f (snd ew))"

record ParallelFor =
  range_from :: nat
  range_to :: nat
  parallelismFactor :: nat

text \<open>
  Modelled from the spec: the constructor of \<^verbatim>\<open>ParallelFor\<close>. The spec: \<open>from \<le> to\<close>
  is required; violating it fails with a runtime error before any task is submitted.
\<close>

definition ParallelFor_new :: "nat \<Rightarrow> nat \<Rightarrow> nat \<Rightarrow> velox_error + ParallelFor" where
  "ParallelFor_new f t p =
     (if t < f then Inl VeloxRuntimeError
      else Inr \<lparr>range_from = f, range_to = t, parallelismFactor = p\<rparr>)"

text \<open>
  Modelled from the spec: the work partition of \<^verbatim>\<open>ParallelFor\<close>. The spec: with
  \<open>N = to - from\<close> the effective degree of parallelism is \<open>D = min P N\<close>, and the work is
  split into \<open>D\<close> contiguous sub-ranges covering \<open>[from, to)\<close> with sizes differing by at
  most one. Here the first \<open>N mod D\<close> sub-ranges are the ones that are one longer.
\<close>

definition degree :: "ParallelFor \<Rightarrow> nat" where
  "degree pf = min (parallelismFactor pf) (range_to pf - range_from pf)"

fun subranges :: "nat \<Rightarrow> nat \<Rightarrow> nat \<Rightarrow> nat \<Rightarrow> (nat \<times> nat) list" where
  "subranges start len extra 0 = []"
| "subranges start len extra (Suc k) =
     (let n = (if 0 < extra then Suc len else len)
      in (start, start + n) # subranges (start + n) len (extra - 1) k)"

definition splitRange :: "ParallelFor \<Rightarrow> (nat \<times> nat) list" where
  "splitRange pf =
     subranges (range_from pf)
       ((range_to pf - range_from pf) div degree pf)
       ((range_to pf - range_from pf) mod degree pf)
       (degree pf)"

text \<open>
  Modelled from the spec: \<^verbatim>\<open>ParallelFor::execute\<close>, for a user function per index
  and for one per sub-range. The spec: if \<open>D \<le> 1\<close>, all work runs inline on the caller
  and the executor is not touched; if \<open>D > 1\<close>, the count of tasks submitted to the
  executor is \<open>D\<close>, one per sub-range. With \<open>wait = true\<close>, \<open>execute\<close> returns when every
  sub-range has completed.
\<close>

fun submit_all ::
  "(nat \<times> nat \<Rightarrow> 'w \<Rightarrow> 'w) \<Rightarrow> (nat \<times> nat) list \<Rightarrow> CountingExecutor \<times> 'w
     \<Rightarrow> CountingExecutor \<times> 'w" where
  "submit_all task [] ew = ew"
| "submit_all task (r # rs) ew = submit_all task rs (CountingExecutor_add (task r) ew)"

definition for_each :: "(nat \<Rightarrow> 'w \<Rightarrow> 'w) \<Rightarrow> nat \<times> nat \<Rightarrow> 'w \<Rightarrow> 'w" where
  "for_each func r w = fold func [fst r..<snd r] w"

definition execute_index ::
  "ParallelFor \<Rightarrow> (nat \<Rightarrow> 'w \<Rightarrow> 'w) \<Rightarrow> CountingExecutor \<times> 'w \<Rightarrow> CountingExecutor \<times> 'w" where
  "execute_index pf func ew =
     (if degree pf \<le> 1
      then (fst ew, for_each func (range_from pf, range_to pf) (snd ew))
      else submit_all (for_each func) (splitRange pf) ew)"

definition execute_range ::
  "ParallelFor \<Rightarrow> (nat \<Rightarrow> nat \<Rightarrow> 'w \<Rightarrow> 'w) \<Rightarrow> CountingExecutor \<times> 'w
     \<Rightarrow> CountingExecutor \<times> 'w" where
  "execute_range pf func ew =
     (if degree pf \<le> 1
      then (fst ew, func (range_from pf) (range_to pf) (snd ew))
      else submit_all (\<lambda>r. func (fst r) (snd r)) (splitRange pf) ew)"

text \<open>
  \<^verbatim>\<open>testParallelFor\<close> of the test: the map \<^verbatim>\<open>indexInvoked\<close> holds a counter for
  every index of \<open>[from, to)\<close>, and the user function of either mode increments the
  counter of each index it is given; an index with no counter fails the test's
  \<^verbatim>\<open>ASSERT_NE\<close>, which is recorded in the flag.
\<close>

record invoked =
  indexInvoked :: "nat \<rightharpoonup> nat"
  found_all :: bool

definition indexInvoked_init :: "nat \<Rightarrow> nat \<Rightarrow> invoked" where
  "indexInvoked_init f t =
     \<lparr>indexInvoked = (\<lambda>i. if f \<le> i \<and> i < t then Some 0 else None), found_all = True\<rparr>"

definition visit :: "nat \<Rightarrow> invoked \<Rightarrow> invoked" where
  "visit i w =
     (case indexInvoked w i of
        None \<Rightarrow> w\<lparr>found_all := False\<rparr>
      | Some n \<Rightarrow> w\<lparr>indexInvoked := (indexInvoked w)(i \<mapsto> n + 1)\<rparr>)"

definition visit_range :: "nat \<Rightarrow> nat \<Rightarrow> invoked \<Rightarrow> invoked" where
  "visit_range b e w = fold visit [b..<e] w"

definition testParallelFor ::
  "CountingExecutor \<Rightarrow> nat \<Rightarrow> nat \<Rightarrow> nat \<Rightarrow> MODE \<Rightarrow> velox_error + (CountingExecutor \<times> invoked)" where
  "testParallelFor executor f t p mode =
     (case ParallelFor_new f t p of
        Inl e \<Rightarrow> Inl e
      | Inr pf \<Rightarrow>
          (case mode of
             INDEX \<Rightarrow> Inr (execute_index pf visit (executor, indexInvoked_init f t))
           | RANGE \<Rightarrow> Inr (execute_range pf visit_range (executor, indexInvoked_init f t))))"


section \<open>Arithmetic of the signed 64-bit range\<close>

lemma sint_of_int_range:
  "- (2 ^ 63) \<le> x \<Longrightarrow> x < 2 ^ 63 \<Longrightarrow> sint (word_of_int x :: u64) = x"
  by (simp add: sint_sbintrunc' signed_take_bit_int_eq_self)

lemma uint_of_int_range:
  "0 \<le> x \<Longrightarrow> x < 2 ^ 64 \<Longrightarrow> uint (word_of_int x :: u64) = x"
  by (simp add: uint_word_of_int take_bit_int_eq_self)

lemma range_arith:
  fixes a la b lb :: int
  assumes "0 \<le> a" "0 \<le> la" "0 \<le> b" "0 \<le> lb"
    and "a + la < 2 ^ 63" and "b + lb < 2 ^ 63"
  shows "- (2 ^ 63) \<le> b - a - la" and "b - a - la < 2 ^ 63"
    and "- (2 ^ 63) \<le> b - a - la + lb" and "b - a - la + lb < 2 ^ 63"
    and "0 \<le> b - (a + la) \<Longrightarrow> b - a - la < 2 ^ 64"
    and "a \<le> b \<Longrightarrow> 0 \<le> b - a + lb \<and> b - a + lb < 2 ^ 64"
  using assms by simp_all

lemmas region_arith =
  range_arith [OF uint_ge_0 uint_ge_0 uint_ge_0 uint_ge_0]

lemma in_range_uint:
  "in_range r \<Longrightarrow> uint (offset r) + uint (length_r r) < 2 ^ 63"
  by (simp add: in_range_def region_end_def)

lemma sint_gap:
  fixes A B :: Region
  assumes A: "in_range A" and B: "in_range B"
  shows "sint (offset B - offset A - length_r A) = gap_spec A B"
proof -
  let ?x = "uint (offset B) - uint (offset A) - uint (length_r A)"
  have eq: "offset B - offset A - length_r A = word_of_int ?x"
    by simp
  have "sint (word_of_int ?x :: u64) = ?x"
    using region_arith(1,2) [OF in_range_uint [OF A] in_range_uint [OF B]]
    by (rule sint_of_int_range)
  then show ?thesis
    by (simp only: eq gap_spec_def region_end_def)
qed

lemma sint_extension:
  fixes A B :: Region
  assumes A: "in_range A" and B: "in_range B"
  shows "sint (offset B - offset A - length_r A + length_r B) = region_end B - region_end A"
proof -
  let ?x = "uint (offset B) - uint (offset A) - uint (length_r A) + uint (length_r B)"
  have eq: "offset B - offset A - length_r A + length_r B = word_of_int ?x"
    by simp
  have "sint (word_of_int ?x :: u64) = ?x"
    using region_arith(3,4) [OF in_range_uint [OF A] in_range_uint [OF B]]
    by (rule sint_of_int_range)
  then show ?thesis
    by (simp only: eq region_end_def)
qed

lemma uint_gap:
  fixes A B :: Region
  assumes A: "in_range A" and B: "in_range B" and nonneg: "0 \<le> gap_spec A B"
  shows "uint (offset B - offset A - length_r A) = gap_spec A B"
proof -
  let ?x = "uint (offset B) - uint (offset A) - uint (length_r A)"
  have eq: "offset B - offset A - length_r A = word_of_int ?x"
    by simp
  have pos: "0 \<le> uint (offset B) - (uint (offset A) + uint (length_r A))"
    using nonneg by (simp add: gap_spec_def region_end_def)
  have "0 \<le> ?x"
    using pos by simp
  moreover have "?x < 2 ^ 64"
    using region_arith(5) [OF in_range_uint [OF A] in_range_uint [OF B] pos] .
  ultimately have "uint (word_of_int ?x :: u64) = ?x"
    by (rule uint_of_int_range)
  then show ?thesis
    by (simp only: eq gap_spec_def region_end_def)
qed

lemma gap_le_extension: "gap_spec A B \<le> region_end B - region_end A"
  by (simp add: gap_spec_def region_end_def [of B])

lemma uint_merged_length:
  fixes A B :: Region
  assumes A: "in_range A" and B: "in_range B" and le: "offset A \<le> offset B"
  shows "uint (word_of_int (merged_length_spec A B) :: u64) = merged_length_spec A B"
proof -
  have le': "uint (offset A) \<le> uint (offset B)"
    using le by (simp add: word_le_def)
  have b: "0 \<le> uint (offset B) - uint (offset A) + uint (length_r B)
      \<and> uint (offset B) - uint (offset A) + uint (length_r B) < 2 ^ 64"
    using region_arith(6) [OF in_range_uint [OF A] in_range_uint [OF B] le'] .
  have "0 \<le> merged_length_spec A B"
    using uint_ge_0 [of "length_r A"] by (simp add: merged_length_spec_def le_max_iff_disj)
  moreover have "merged_length_spec A B < 2 ^ 64"
    using b uint_lt2p [of "length_r A"] by (simp add: merged_length_spec_def max_def)
  ultimately show ?thesis
    by (rule uint_of_int_range)
qed

section \<open>tryMerge\<close>

text \<open>tryMerge on regions of the signed 64-bit range, as one equation.\<close>

lemma tryMerge_in_range:
  fixes A B :: Region
  assumes le: "offset A \<le> offset B" and A: "in_range A" and B: "in_range B"
  shows "tryMerge mmd s A B =
     (if gap_spec A B \<le> uint mmd
      then Inr (True,
                A\<lparr>length_r := word_of_int (merged_length_spec A B)\<rparr>,
                (case s of
                   Some l \<Rightarrow>
                     if 0 < gap_spec A B then Some (l @ [word_of_int (gap_spec A B)]) else s
                 | None \<Rightarrow> None))
      else Inr (False, A, s))"
proof -
  let ?gap = "offset B - offset A - length_r A"
  have sg: "sint ?gap = gap_spec A B"
    by (rule sint_gap [OF A B])
  have se: "sint (?gap + length_r B) = region_end B - region_end A"
    by (rule sint_extension [OF A B])
  have cond: "(sint ?gap < 0 \<or> ?gap \<le> mmd) \<longleftrightarrow> gap_spec A B \<le> uint mmd"
  proof (cases "0 \<le> gap_spec A B")
    case True
    then show ?thesis
      using uint_gap [OF A B True] sg by (simp add: word_le_def)
  next
    case False
    then show ?thesis
      using sg uint_ge_0 [of mmd] by linarith
  qed
  have newlen: "length_r A + (?gap + length_r B) = word_of_int (merged_length_spec A B)"
    if "0 < region_end B - region_end A"
  proof -
    have "merged_length_spec A B = uint (offset B) - uint (offset A) + uint (length_r B)"
      using that by (simp add: merged_length_spec_def region_end_def max_def)
    then show ?thesis
      by simp
  qed
  have keep: "A = A\<lparr>length_r := word_of_int (merged_length_spec A B)\<rparr>"
    if "\<not> 0 < region_end B - region_end A"
  proof -
    have "merged_length_spec A B = uint (length_r A)"
      using that by (simp add: merged_length_spec_def region_end_def max_def)
    then show ?thesis
      by simp
  qed
  have gapw: "?gap = word_of_int (gap_spec A B)"
    by (simp add: gap_spec_def region_end_def)
  show ?thesis
  proof (cases "gap_spec A B \<le> uint mmd")
    case merge: True
    show ?thesis
    proof (cases "0 < region_end B - region_end A")
      case True
      then show ?thesis
        using le merge cond sg se newlen [OF True]
        by (cases s) (simp_all add: tryMerge_def Let_def incRawOverreadBytes_def gapw [symmetric])
    next
      case False
      then have "\<not> 0 < gap_spec A B"
        using gap_le_extension [of A B] by linarith
      then show ?thesis
        using le merge cond sg se False keep [OF False]
        by (cases s) (simp_all add: tryMerge_def Let_def)
    qed
  next
    case False
    then show ?thesis
      using le cond by (simp add: tryMerge_def Let_def)
  qed
qed

lemma merges_spec_iff_gap: "merges_spec mmd A B \<longleftrightarrow> gap_spec A B \<le> uint mmd"
proof -
  have "gap_spec A B \<le> uint mmd" if "region_end B \<le> region_end A"
    using that gap_le_extension [of A B] uint_ge_0 [of mmd] by linarith
  then show ?thesis
    by (auto simp: merges_spec_def)
qed

text \<open>
  C1 (as amended). For two regions A and B of the signed 64-bit offset range (both end
  below \<open>2 ^ 63\<close>) with B's offset not below A's, \<open>tryMerge\<close> returns without throwing;
  it returns true exactly when B lies inside A or the gap \<open>b - (a + la)\<close> is at most
  \<open>maxMergeDistance\<close>; the region it leaves in A keeps A's offset; when it returns true
  the new length is \<open>max la ((b - a) + lb)\<close>, and when it returns false A is unchanged.
\<close>

theorem tryMerge_merges_iff_spec:
  fixes A B :: Region
  assumes "offset A \<le> offset B" and "in_range A" and "in_range B"
  shows "\<exists>merged A' s'. tryMerge mmd s A B = Inr (merged, A', s')
           \<and> (merged \<longleftrightarrow> merges_spec mmd A B)
           \<and> offset A' = offset A
           \<and> (merged \<longrightarrow> uint (length_r A') = merged_length_spec A B)
           \<and> (\<not> merged \<longrightarrow> A' = A)"
proof (cases "gap_spec A B \<le> uint mmd")
  case True
  then show ?thesis
    using tryMerge_in_range [OF assms, of mmd s] uint_merged_length [OF assms(2,3,1)]
    by (auto simp add: merges_spec_iff_gap)
next
  case False
  then show ?thesis
    using tryMerge_in_range [OF assms, of mmd s]
    by (auto simp add: merges_spec_iff_gap)
qed

theorem tryMerge_merges_iff_spec_witness:
  "offset \<lparr>offset = 0, length_r = 10\<rparr> \<le> offset \<lparr>offset = 12, length_r = 8\<rparr>
   \<and> in_range \<lparr>offset = 0, length_r = 10\<rparr> \<and> in_range \<lparr>offset = 12, length_r = 8\<rparr>
   \<and> merges_spec 4 \<lparr>offset = 0, length_r = 10\<rparr> \<lparr>offset = 12, length_r = 8\<rparr>
   \<and> merged_length_spec \<lparr>offset = 0, length_r = 10\<rparr> \<lparr>offset = 12, length_r = 8\<rparr> = 20
   \<and> (\<exists>A' s'. tryMerge 4 (Some []) \<lparr>offset = 0, length_r = 10\<rparr> \<lparr>offset = 12, length_r = 8\<rparr>
          = Inr (True, A', s') \<and> offset A' = 0 \<and> uint (length_r A') = 20)"
proof -
  let ?A = "\<lparr>offset = 0, length_r = 10\<rparr> :: Region"
  let ?B = "\<lparr>offset = 12, length_r = 8\<rparr> :: Region"
  have h: "offset ?A \<le> offset ?B" "in_range ?A" "in_range ?B"
    by (simp_all add: in_range_def region_end_def)
  have m: "merges_spec 4 ?A ?B" "merged_length_spec ?A ?B = 20"
    by (simp_all add: merges_spec_def gap_spec_def region_end_def merged_length_spec_def)
  show ?thesis
    using h m tryMerge_merges_iff_spec [OF h, of 4 "Some []"] by auto
qed

text \<open>
  C1 as stated fails outside that range: A = [0, 1) and B = [2^63 + 1, 2^63 + 2) are
  sorted, of positive length and 2^63 bytes apart, B is not inside A and the merge
  distance is 0, yet the gap read as \<^verbatim>\<open>int64_t\<close> is negative and \<open>tryMerge\<close> returns
  true, leaving A at length 1.
\<close>

theorem tryMerge_far_regions_counterexample:
  "offset \<lparr>offset = 0, length_r = 1\<rparr> \<le> offset \<lparr>offset = 2 ^ 63 + 1, length_r = 1\<rparr>
   \<and> 0 < length_r \<lparr>offset = 0, length_r = 1 :: u64\<rparr>
   \<and> 0 < length_r \<lparr>offset = 2 ^ 63 + 1 :: u64, length_r = 1\<rparr>
   \<and> \<not> merges_spec 0 \<lparr>offset = 0, length_r = 1\<rparr> \<lparr>offset = 2 ^ 63 + 1, length_r = 1\<rparr>
   \<and> tryMerge 0 None \<lparr>offset = 0, length_r = 1\<rparr> \<lparr>offset = 2 ^ 63 + 1, length_r = 1\<rparr>
       = Inr (True, \<lparr>offset = 0, length_r = 1\<rparr>, None)"
  by (simp add: merges_spec_def gap_spec_def region_end_def tryMerge_def Let_def)


section \<open>The merge loop on the array and on the list\<close>

declare mergeRegions_loop.simps [simp del]

lemma tryMerge_sorted:
  assumes "offset A \<le> offset B"
  shows "\<exists>m A' s'. tryMerge mmd s A B = Inr (m, A', s') \<and> offset A' = offset A
           \<and> (\<not> m \<longrightarrow> A' = A \<and> s' = s)"
  using assms by (auto simp add: tryMerge_def Let_def)

text \<open>
  On an array whose offsets are sorted from \<open>ib\<close> on, and not below that of the region
  at \<open>ia\<close>, the loop throws only at a region of length zero; when it returns, the prefix
  of the array up to \<open>ia\<close> is the prefix it started with followed by the coalesced list.
\<close>

lemma mergeRegions_loop_coalesce:
  assumes "mergeRegions_loop mmd s r ia ib = (e, r', ia', s')"
    and "ia < ib" and "ib \<le> length r"
    and "sorted (map offset (r ! ia # drop ib r))"
  shows "(e \<noteq> None \<longrightarrow> \<not> (\<forall>x \<in> set (drop ib r). 0 < length_r x))
       \<and> (e = None \<longrightarrow>
             s' = snd (coalesce mmd s (r ! ia) (drop ib r))
             \<and> take (Suc ia') r' = take ia r @ fst (coalesce mmd s (r ! ia) (drop ib r)))"
  using assms
proof (induction "length r - ib" arbitrary: r ia ib s)
  case 0
  then have "drop ib r = []" "\<not> ib < length r"
    by simp_all
  moreover have "take (Suc ia) r = take ia r @ [r ! ia]"
    using 0 by (simp add: take_Suc_conv_app_nth)
  ultimately show ?case
    using "0.prems"(1) by (subst (asm) mergeRegions_loop.simps) auto
next
  case (Suc n)
  then have ib: "ib < length r"
    by simp
  let ?x = "r ! ib" and ?xs = "drop (Suc ib) r"
  have dr: "drop ib r = ?x # ?xs"
    using ib by (simp add: Cons_nth_drop_Suc)
  have le: "offset (r ! ia) \<le> offset ?x"
    using Suc.prems(4) by (simp add: dr)
  obtain m A' t where tm: "tryMerge mmd s (r ! ia) ?x = Inr (m, A', t)"
    and off: "offset A' = offset (r ! ia)" and unm: "\<not> m \<longrightarrow> A' = r ! ia \<and> t = s"
    using tryMerge_sorted [OF le] by blast
  have ia: "ia < length r"
    using Suc.prems(2) ib by simp
  show ?case
  proof (cases "0 < length_r ?x")
    case False
    then have "\<not> (\<forall>x \<in> set (drop ib r). 0 < length_r x)"
      by (simp add: dr)
    moreover have "e \<noteq> None"
      using False ib Suc.prems(1) by (subst (asm) mergeRegions_loop.simps) auto
    ultimately show ?thesis
      by auto
  next
    case pos: True
    show ?thesis
    proof (cases m)
      case True
      let ?r1 = "r[ia := A']"
      have d1: "drop (Suc ib) ?r1 = ?xs"
        using Suc.prems(2) by simp
      have n1: "?r1 ! ia = A'"
        using ia by simp
      have call: "mergeRegions_loop mmd t ?r1 ia (Suc ib) = (e, r', ia', s')"
        using Suc.prems(1) True tm pos ib by (subst (asm) mergeRegions_loop.simps) simp
      have "(e \<noteq> None \<longrightarrow> \<not> (\<forall>x \<in> set (drop (Suc ib) ?r1). 0 < length_r x))
          \<and> (e = None \<longrightarrow>
                s' = snd (coalesce mmd t (?r1 ! ia) (drop (Suc ib) ?r1))
                \<and> take (Suc ia') r'
                    = take ia ?r1 @ fst (coalesce mmd t (?r1 ! ia) (drop (Suc ib) ?r1)))"
      proof (rule Suc.hyps(1) [OF _ call])
        show "n = length ?r1 - Suc ib"
          using Suc.hyps(2) by simp
        show "ia < Suc ib"
          using Suc.prems(2) by simp
        show "Suc ib \<le> length ?r1"
          using ib by simp
        show "sorted (map offset (?r1 ! ia # drop (Suc ib) ?r1))"
          using Suc.prems(4) by (simp add: d1 n1 off dr)
      qed
      then show ?thesis
        using True tm by (simp add: d1 n1 dr)
    next
      case False
      then have A': "A' = r ! ia" and t: "t = s"
        using unm by simp_all
      let ?r2 = "(r[ia := A'])[Suc ia := ?x]"
      have sia: "Suc ia < length r"
        using Suc.prems(2) ib by simp
      have d2: "drop (Suc ib) ?r2 = ?xs"
        using Suc.prems(2) by simp
      have n2: "?r2 ! Suc ia = ?x"
        using sia by simp
      have t2: "take (Suc ia) ?r2 = take ia r @ [A']"
        using ia by (simp add: take_Suc_conv_app_nth)
      have call: "mergeRegions_loop mmd t ?r2 (Suc ia) (Suc ib) = (e, r', ia', s')"
        using Suc.prems(1) False tm pos ib by (subst (asm) mergeRegions_loop.simps) simp
      have "(e \<noteq> None \<longrightarrow> \<not> (\<forall>x \<in> set (drop (Suc ib) ?r2). 0 < length_r x))
          \<and> (e = None \<longrightarrow>
                s' = snd (coalesce mmd t (?r2 ! Suc ia) (drop (Suc ib) ?r2))
                \<and> take (Suc ia') r'
                    = take (Suc ia) ?r2 @ fst (coalesce mmd t (?r2 ! Suc ia) (drop (Suc ib) ?r2)))"
      proof (rule Suc.hyps(1) [OF _ call])
        show "n = length ?r2 - Suc ib"
          using Suc.hyps(2) by simp
        show "Suc ia < Suc ib"
          using Suc.prems(2) by simp
        show "Suc ib \<le> length ?r2"
          using ib by simp
        show "sorted (map offset (?r2 ! Suc ia # drop (Suc ib) ?r2))"
          using Suc.prems(4) by (simp only: d2 n2) (simp add: dr)
      qed
      then show ?thesis
        using False tm by (auto simp add: d2 n2 t2 dr split: prod.splits)
    qed
  qed
qed

lemma mergeRegions_frame:
  assumes "mergeRegions st = (e, st')"
  shows "offsets st' = offsets st \<and> buffers st' = buffers st
         \<and> maxMergeDistance st' = maxMergeDistance st \<and> wsVRLoad st' = wsVRLoad st
         \<and> calls (input st') = calls (input st)"
  using assms by (auto simp add: mergeRegions_def Let_def split: if_splits prod.splits option.splits)

text \<open>
  mergeRegions on a non-empty list with sorted offsets: it throws only at a region of
  length zero, and when it returns the object holds the coalesced list and sink.
\<close>

lemma mergeRegions_coalesce:
  assumes ne: "regions st \<noteq> []" and srt: "sorted (map offset (regions st))"
  shows "case mergeRegions st of
           (Some e, st') \<Rightarrow> \<not> (\<forall>x \<in> set (regions st). 0 < length_r x)
         | (None, st') \<Rightarrow>
             st' = st\<lparr>regions := fst (coalesce (maxMergeDistance st) (stats (input st))
                                      (hd (regions st)) (tl (regions st))),
                     input := (input st)\<lparr>stats := snd (coalesce (maxMergeDistance st)
                                      (stats (input st)) (hd (regions st)) (tl (regions st)))\<rparr>\<rparr>"
proof -
  let ?r = "regions st"
  let ?c = "coalesce (maxMergeDistance st) (stats (input st)) (hd ?r) (tl ?r)"
  have hd: "?r ! 0 = hd ?r" and tl: "drop (Suc 0) ?r = tl ?r"
    using ne by (simp_all add: hd_conv_nth drop_Suc)
  have p1: "(0::nat) < Suc 0"
    by simp
  have p2: "Suc 0 \<le> length ?r"
    using ne by (cases ?r) simp_all
  have p4: "sorted (map offset (?r ! 0 # drop (Suc 0) ?r))"
    using srt ne by (cases ?r) simp_all
  obtain e r' ia' s' where
    res: "mergeRegions_loop (maxMergeDistance st) (stats (input st)) ?r 0 (Suc 0) = (e, r', ia', s')"
    by (cases "mergeRegions_loop (maxMergeDistance st) (stats (input st)) ?r 0 (Suc 0)") auto
  have loop: "(e \<noteq> None \<longrightarrow> \<not> (\<forall>x \<in> set (tl ?r). 0 < length_r x))
      \<and> (e = None \<longrightarrow> s' = snd ?c \<and> take (Suc ia') r' = fst ?c)"
    using mergeRegions_loop_coalesce [OF res p1 p2 p4] by (simp add: hd tl)
  have sub: "set (tl ?r) \<subseteq> set ?r"
    using ne by (cases ?r) auto
  show ?thesis
  proof (cases "0 < length_r (?r ! 0)")
    case False
    then have "\<not> (\<forall>x \<in> set ?r. 0 < length_r x)"
      using ne by (cases ?r) auto
    then show ?thesis
      using False ne by (simp add: mergeRegions_def Let_def)
  next
    case True
    then show ?thesis
      using loop ne sub res
      by (cases e) (auto simp add: mergeRegions_def Let_def)
  qed
qed

lemma mergeRegions_returns:
  assumes "regions st \<noteq> []" and "sorted (map offset (regions st))"
    and "\<forall>x \<in> set (regions st). 0 < length_r x"
  shows "mergeRegions st =
     (None, st\<lparr>regions := fst (coalesce (maxMergeDistance st) (stats (input st))
                                (hd (regions st)) (tl (regions st))),
               input := (input st)\<lparr>stats := snd (coalesce (maxMergeDistance st)
                                (stats (input st)) (hd (regions st)) (tl (regions st)))\<rparr>\<rparr>)"
  using mergeRegions_coalesce [OF assms(1,2)] assms(3)
  by (cases "mergeRegions st") (auto split: option.splits)


section \<open>What the merged list looks like\<close>

lemma coalesce_offsets:
  assumes "sorted (map offset (cur # xs))"
  shows "sorted (map offset (fst (coalesce mmd s cur xs)))
         \<and> (\<forall>y \<in> set (fst (coalesce mmd s cur xs)). offset cur \<le> offset y)
         \<and> fst (coalesce mmd s cur xs) \<noteq> []"
  using assms
proof (induction xs arbitrary: cur s)
  case Nil
  then show ?case by simp
next
  case (Cons x xs)
  have le: "offset cur \<le> offset x"
    using Cons.prems by simp
  obtain m A' s' where tm: "tryMerge mmd s cur x = Inr (m, A', s')"
    and off: "offset A' = offset cur" and unm: "\<not> m \<longrightarrow> A' = cur \<and> s' = s"
    using tryMerge_sorted [OF le] by blast
  show ?case
  proof (cases m)
    case True
    have "sorted (map offset (A' # xs))"
      using Cons.prems by (simp add: off)
    from Cons.IH [OF this, of s'] show ?thesis
      using True tm by (simp add: off)
  next
    case False
    have "sorted (map offset (x # xs))"
      using Cons.prems by simp
    from Cons.IH [OF this, of s'] show ?thesis
      using False tm unm le by (fastforce split: prod.splits)
  qed
qed

lemma region_end_merged:
  assumes A: "in_range A" and B: "in_range B" and le: "offset A \<le> offset B"
  shows "region_end (A\<lparr>length_r := word_of_int (merged_length_spec A B)\<rparr>)
           = max (region_end A) (region_end B)"
proof -
  have "region_end (A\<lparr>length_r := word_of_int (merged_length_spec A B)\<rparr>)
          = uint (offset A) + merged_length_spec A B"
    using uint_merged_length [OF A B le] by (simp add: region_end_def)
  then show ?thesis
    by (simp add: merged_length_spec_def region_end_def max_def)
qed

lemma in_range_merged:
  assumes A: "in_range A" and B: "in_range B" and le: "offset A \<le> offset B"
  shows "in_range (A\<lparr>length_r := word_of_int (merged_length_spec A B)\<rparr>)"
  using region_end_merged [OF assms] A B by (simp add: in_range_def)

lemma coalesce_separated:
  assumes "sorted (map offset (cur # xs))" and "\<forall>x \<in> set (cur # xs). in_range x"
  shows "pairwise_separated mmd (fst (coalesce mmd s cur xs))
         \<and> increasing_offsets (fst (coalesce mmd s cur xs))
         \<and> (\<forall>x \<in> set (fst (coalesce mmd s cur xs)). in_range x)"
  using assms
proof (induction xs arbitrary: cur s)
  case Nil
  then show ?case
    by (simp add: pairwise_separated_def increasing_offsets_def)
next
  case (Cons x xs)
  have le: "offset cur \<le> offset x" and cur: "in_range cur" and x: "in_range x"
    using Cons.prems by simp_all
  note tm = tryMerge_in_range [OF le cur x, of mmd s]
  show ?case
  proof (cases "gap_spec cur x \<le> uint mmd")
    case True
    let ?A' = "cur\<lparr>length_r := word_of_int (merged_length_spec cur x)\<rparr>"
    have "sorted (map offset (?A' # xs))" and "\<forall>x \<in> set (?A' # xs). in_range x"
      using Cons.prems in_range_merged [OF cur x le] by simp_all
    from Cons.IH [OF this] show ?thesis
      using True tm by simp
  next
    case False
    have srt: "sorted (map offset (x # xs))" and rng: "\<forall>y \<in> set (x # xs). in_range y"
      using Cons.prems by simp_all
    let ?out = "fst (coalesce mmd s x xs)"
    have ih: "pairwise_separated mmd ?out" "increasing_offsets ?out" "\<forall>y \<in> set ?out. in_range y"
      using Cons.IH [OF srt rng, of s] by simp_all
    have far: "separated mmd cur y \<and> offset cur < offset y" if "y \<in> set ?out" for y
    proof -
      have "offset x \<le> offset y"
        using coalesce_offsets [OF srt, of mmd s] that by blast
      then have "uint (offset x) \<le> uint (offset y)"
        by (simp add: word_le_def)
      moreover have "uint (offset cur) \<le> region_end cur"
        using uint_ge_0 [of "length_r cur"] unfolding region_end_def by linarith
      moreover have "uint mmd < uint (offset x) - region_end cur"
        using False unfolding gap_spec_def by linarith
      ultimately show ?thesis
        using uint_ge_0 [of mmd]
        unfolding separated_def gap_spec_def word_less_def by linarith
    qed
    show ?thesis
      using False tm ih far cur
      by (auto simp add: pairwise_separated_def increasing_offsets_def split: prod.splits)
  qed
qed

section \<open>The load pass\<close>

lemma tryMerge_error:
  "tryMerge mmd s A B = Inl e \<Longrightarrow> e = DwioEnsure ''regions should be sorted.''"
  by (auto simp add: tryMerge_def Let_def split: if_splits)

lemma mergeRegions_loop_error:
  "mergeRegions_loop mmd s r ia ib = (Some e, x) \<Longrightarrow> \<exists>msg. e = DwioEnsure msg"
proof (induction mmd s r ia ib rule: mergeRegions_loop.induct)
  case (1 mmd s r ia ib)
  show ?case
  proof (cases "ib < length r \<and> 0 < length_r (r ! ib)")
    case False
    then show ?thesis
      using "1.prems" by (subst (asm) mergeRegions_loop.simps) (auto split: if_splits)
  next
    case True
    show ?thesis
    proof (cases "tryMerge mmd s (r ! ia) (r ! ib)")
      case (Inl err)
      then show ?thesis
        using True "1.prems" tryMerge_error [OF Inl]
        by (subst (asm) mergeRegions_loop.simps) auto
    next
      case (Inr res)
      obtain m A' t where res: "res = (m, A', t)"
        by (cases res) auto
      show ?thesis
      proof (cases m)
        case True
        then show ?thesis
          using \<open>ib < length r \<and> 0 < length_r (r ! ib)\<close> Inr res "1.prems"
            "1.IH"(2) [of res m "(A', t)" A' t]
          by (subst (asm) mergeRegions_loop.simps) auto
      next
        case False
        then show ?thesis
          using \<open>ib < length r \<and> 0 < length_r (r ! ib)\<close> Inr res "1.prems"
            "1.IH"(1) [of res m "(A', t)" A' t]
          by (subst (asm) mergeRegions_loop.simps) auto
      qed
    qed
  qed
qed

lemma mergeRegions_error:
  "mergeRegions st = (Some e, st') \<Longrightarrow> \<exists>msg. e = DwioEnsure msg"
  by (auto simp add: mergeRegions_def Let_def split: if_splits prod.splits option.splits
      dest: mergeRegions_loop_error)

lemma sorted_region_key_offset:
  "sorted (map region_key rs) \<Longrightarrow> sorted (map offset rs)"
  by (induction rs) (auto simp add: region_key_def less_eq_prod_def)

lemma sorted_regions_facts:
  "sorted (map offset (sorted_regions st))"
  "set (sorted_regions st) = set (regions st)"
  "sorted_regions st = [] \<longleftrightarrow> regions st = []"
proof -
  have "sorted (map region_key (sorted_regions st))"
    by (simp add: sorted_regions_def)
  then show "sorted (map offset (sorted_regions st))"
    by (rule sorted_region_key_offset)
  show "set (sorted_regions st) = set (regions st)"
    by (simp add: sorted_regions_def)
  then show "sorted_regions st = [] \<longleftrightarrow> regions st = []"
    by (metis set_empty)
qed

text \<open>The scalar path over a list of regions, from any object.\<close>

lemma loadWithAction_loop_read:
  assumes "loadWithAction_loop (read_action fails) rs (st, ()) = (e, w)"
  shows "\<exists>k \<le> length rs.
       w = (st\<lparr>offsets := offsets st @ map offset (take k rs),
               buffers := buffers st @ buffers_of (take k rs),
               input := (input st)\<lparr>calls := calls (input st) @ reads_of (take k rs)\<rparr>\<rparr>, ())
     \<and> (e = None \<longrightarrow> k = length rs
           \<and> (\<forall>j < k. \<not> fails (calls (input st) @ reads_of (take j rs)) (reads_of rs ! j)))
     \<and> (e \<noteq> None \<longrightarrow> e = Some IoError \<and> 0 < k
           \<and> fails (calls (input st) @ reads_of (take (k - 1) rs)) (reads_of rs ! (k - 1))
           \<and> (\<forall>j < k - 1. \<not> fails (calls (input st) @ reads_of (take j rs)) (reads_of rs ! j)))"
  using assms
proof (induction rs arbitrary: st)
  case Nil
  then show ?case
    by (simp add: reads_of_def buffers_of_def)
next
  case (Cons r rs)
  let ?c = "Read (length_r r) (offset r)"
  let ?st1 = "st\<lparr>offsets := offsets st @ [offset r], buffers := buffers st @ [Buffer (length_r r)],
                 input := (input st)\<lparr>calls := calls (input st) @ [?c]\<rparr>\<rparr>"
  have step: "readRegion r (read_action fails) (st, ())
      = ((if fails (calls (input st)) ?c then Some IoError else None), (?st1, ()))"
    by (simp add: readRegion_def read_action_def read_def backend_def Let_def)
  show ?case
  proof (cases "fails (calls (input st)) ?c")
    case True
    then have "e = Some IoError" "w = (?st1, ())"
      using Cons.prems step by simp_all
    then show ?thesis
      using True by (intro exI [of _ 1]) (simp add: reads_of_def buffers_of_def)
  next
    case False
    then have "loadWithAction_loop (read_action fails) rs (?st1, ()) = (e, w)"
      using Cons.prems step by simp
    from Cons.IH [OF this] obtain k where k: "k \<le> length rs"
      and w: "w = (?st1\<lparr>offsets := offsets ?st1 @ map offset (take k rs),
               buffers := buffers ?st1 @ buffers_of (take k rs),
               input := (input ?st1)\<lparr>calls := calls (input ?st1) @ reads_of (take k rs)\<rparr>\<rparr>, ())"
      and ok: "e = None \<longrightarrow> k = length rs
           \<and> (\<forall>j < k. \<not> fails (calls (input ?st1) @ reads_of (take j rs)) (reads_of rs ! j))"
      and bad: "e \<noteq> None \<longrightarrow> e = Some IoError \<and> 0 < k
           \<and> fails (calls (input ?st1) @ reads_of (take (k - 1) rs)) (reads_of rs ! (k - 1))
           \<and> (\<forall>j < k - 1. \<not> fails (calls (input ?st1) @ reads_of (take j rs)) (reads_of rs ! j))"
      by blast
    have shift: "\<not> fails (calls (input st) @ reads_of (take j (r # rs))) (reads_of (r # rs) ! j)"
      if "j < Suc n" and "\<forall>i < n. \<not> fails (calls (input ?st1) @ reads_of (take i rs)) (reads_of rs ! i)"
      for j n
    proof (cases j)
      case 0
      then show ?thesis
        using False by (simp add: reads_of_def)
    next
      case (Suc i)
      then have "i < n"
        using that(1) by simp
      with that(2) have "\<not> fails (calls (input ?st1) @ reads_of (take i rs)) (reads_of rs ! i)"
        by blast
      then show ?thesis
        by (simp add: Suc reads_of_def)
    qed
    show ?thesis
    proof (intro exI [of _ "Suc k"] conjI)
      show "Suc k \<le> length (r # rs)"
        using k by simp
      show "w = (st\<lparr>offsets := offsets st @ map offset (take (Suc k) (r # rs)),
               buffers := buffers st @ buffers_of (take (Suc k) (r # rs)),
               input := (input st)\<lparr>calls := calls (input st) @ reads_of (take (Suc k) (r # rs))\<rparr>\<rparr>, ())"
        using w by (simp add: reads_of_def buffers_of_def)
      show "e = None \<longrightarrow> Suc k = length (r # rs)
           \<and> (\<forall>j < Suc k. \<not> fails (calls (input st) @ reads_of (take j (r # rs)))
                  (reads_of (r # rs) ! j))"
        using ok shift [of _ k] by simp
      show "e \<noteq> None \<longrightarrow> e = Some IoError \<and> 0 < Suc k
           \<and> fails (calls (input st) @ reads_of (take (Suc k - 1) (r # rs)))
                (reads_of (r # rs) ! (Suc k - 1))
           \<and> (\<forall>j < Suc k - 1. \<not> fails (calls (input st) @ reads_of (take j (r # rs)))
                  (reads_of (r # rs) ! j))"
      proof
        assume "e \<noteq> None"
        with bad have e: "e = Some IoError" and kpos: "0 < k"
          and f: "fails (calls (input ?st1) @ reads_of (take (k - 1) rs)) (reads_of rs ! (k - 1))"
          and nf: "\<forall>j < k - 1. \<not> fails (calls (input ?st1) @ reads_of (take j rs)) (reads_of rs ! j)"
          by simp_all
        obtain i where i: "k = Suc i"
          using kpos by (cases k) simp_all
        have "\<forall>j < Suc k - 1. \<not> fails (calls (input st) @ reads_of (take j (r # rs)))
                  (reads_of (r # rs) ! j)"
          using shift [of _ "k - 1"] nf by (simp add: i)
        then show "e = Some IoError \<and> 0 < Suc k
           \<and> fails (calls (input st) @ reads_of (take (Suc k - 1) (r # rs)))
                (reads_of (r # rs) ! (Suc k - 1))
           \<and> (\<forall>j < Suc k - 1. \<not> fails (calls (input st) @ reads_of (take j (r # rs)))
                  (reads_of (r # rs) ! j))"
          using e f by (simp add: i reads_of_def)
      qed
    qed
  qed
qed

text \<open>The vectored path over a list of regions: the action only collects.\<close>

lemma loadWithAction_loop_collect:
  "loadWithAction_loop collect_action rs (st, (bufs, regs, sz))
     = (None, (st\<lparr>offsets := offsets st @ map offset rs, buffers := buffers st @ buffers_of rs\<rparr>,
               (bufs @ buffers_of rs, regs @ rs, sz + sum_list (map length_r rs))))"
proof (induction rs arbitrary: st bufs regs sz)
  case Nil
  then show ?case
    by (simp add: buffers_of_def)
next
  case (Cons r rs)
  have "readRegion r collect_action (st, (bufs, regs, sz))
      = (None, (st\<lparr>offsets := offsets st @ [offset r], buffers := buffers st @ [Buffer (length_r r)]\<rparr>,
                (bufs @ [Buffer (length_r r)], regs @ [r], sz + length_r r)))"
    by (simp add: readRegion_def collect_action_def Let_def)
  then show ?case
    using Cons.IH by (simp add: buffers_of_def add.assoc)
qed

text \<open>
  Every way \<open>load\<close> can end on a non-empty region set: a \<^verbatim>\<open>DWIO_ENSURE\<close> of
  \<open>mergeRegions\<close> fails (only at a region of length zero) and the index is left
  cleared, or the regions are merged and the first \<open>k\<close> merged regions are indexed when
  \<open>load\<close> returns or a backend call throws.
\<close>

lemma load_result:
  assumes ne: "regions st \<noteq> []" and ld: "load fails st = (e, st')"
  shows "(\<exists>msg. e = Some (DwioEnsure msg) \<and> offsets st' = [] \<and> buffers st' = []
            \<and> maxMergeDistance st' = maxMergeDistance st
            \<and> calls (input st') = calls (input st)
            \<and> \<not> (\<forall>x \<in> set (regions st). 0 < length_r x))
       \<or> (\<exists>k \<le> length (coalesced_regions st).
             merged_regions st = coalesced_regions st
           \<and> offsets st' = map offset (take k (coalesced_regions st))
           \<and> buffers st' = buffers_of (take k (coalesced_regions st))
           \<and> maxMergeDistance st' = maxMergeDistance st
           \<and> stats (input st') = coalesced_stats st
           \<and> (e = None \<longrightarrow> k = length (coalesced_regions st) \<and> regions st' = [])
           \<and> (e \<noteq> None \<longrightarrow> e = Some IoError \<and> regions st' = coalesced_regions st)
           \<and> (\<not> wsVRLoad st \<longrightarrow>
                 calls (input st') = calls (input st) @ reads_of (take k (coalesced_regions st))
               \<and> (e = None \<longrightarrow>
                     (\<forall>j < k. \<not> fails (calls (input st) @ reads_of (take j (coalesced_regions st)))
                                  (reads_of (coalesced_regions st) ! j)))
               \<and> (e \<noteq> None \<longrightarrow> 0 < k
                    \<and> fails (calls (input st) @ reads_of (take (k - 1) (coalesced_regions st)))
                        (reads_of (coalesced_regions st) ! (k - 1))
                    \<and> (\<forall>j < k - 1.
                          \<not> fails (calls (input st) @ reads_of (take j (coalesced_regions st)))
                              (reads_of (coalesced_regions st) ! j))))
           \<and> (wsVRLoad st \<longrightarrow> k = length (coalesced_regions st)
               \<and> calls (input st')
                   = calls (input st) @ [VRead (buffers_of (coalesced_regions st)) (coalesced_regions st)]
               \<and> (e \<noteq> None \<longleftrightarrow>
                     fails (calls (input st))
                       (VRead (buffers_of (coalesced_regions st)) (coalesced_regions st)))))"
proof -
  let ?st2 = "st\<lparr>offsets := [], buffers := [], regions := sorted_regions st\<rparr>"
  let ?m = "coalesced_regions st"
  obtain em st3 where mr: "mergeRegions ?st2 = (em, st3)"
    by (cases "mergeRegions ?st2") auto
  have ne2: "regions ?st2 \<noteq> []" and srt2: "sorted (map offset (regions ?st2))"
    using ne sorted_regions_facts [of st] by simp_all
  note mc = mergeRegions_coalesce [OF ne2 srt2]
  note fr = mergeRegions_frame [OF mr]
  have unfold: "load fails st =
     (case mergeRegions ?st2 of
        (Some e, st3) \<Rightarrow> (Some e, st3)
      | (None, st3) \<Rightarrow>
          if wsVRLoad st3 then
            (case loadWithAction collect_action (st3, ([], [], 0)) of
               (Some e, w) \<Rightarrow> (Some e, fst w)
             | (None, w) \<Rightarrow>
                 (case snd w of
                    (bufs, regs, sizeToRead) \<Rightarrow>
                      (case vread fails (input (fst w)) bufs regs of
                         (Some e, inp) \<Rightarrow> (Some e, (fst w)\<lparr>input := inp\<rparr>)
                       | (None, inp) \<Rightarrow> (None, (fst w)\<lparr>input := inp, regions := []\<rparr>))))
          else
            (case loadWithAction (read_action fails) (st3, ()) of
               (Some e, w) \<Rightarrow> (Some e, fst w)
             | (None, w) \<Rightarrow> (None, (fst w)\<lparr>regions := []\<rparr>)))"
    using ne by (simp add: load_def Let_def sorted_regions_def)
  show ?thesis
  proof (cases em)
    case (Some err)
    then have "e = Some err" "st' = st3"
      using ld mr unfold by simp_all
    moreover obtain msg where "err = DwioEnsure msg"
      using mergeRegions_error mr Some by blast
    moreover have "\<not> (\<forall>x \<in> set (regions st). 0 < length_r x)"
      using mc mr Some sorted_regions_facts(2) [of st] by simp
    ultimately show ?thesis
      using fr by simp
  next
    case None
    then have st3: "st3 = ?st2\<lparr>regions := ?m, input := (input st)\<lparr>stats := coalesced_stats st\<rparr>\<rparr>"
      using mc mr by (simp add: coalesced_regions_def coalesced_stats_def)
    have mm: "merged_regions st = ?m"
      using mr st3 by (simp add: merged_regions_def sorted_regions_def)
    show ?thesis
    proof (cases "wsVRLoad st")
      case False
      obtain el w where lw: "loadWithAction_loop (read_action fails) ?m (st3, ()) = (el, w)"
        by (cases "loadWithAction_loop (read_action fails) ?m (st3, ())") auto
      from loadWithAction_loop_read [OF lw] obtain k where k: "k \<le> length ?m"
        and w: "w = (st3\<lparr>offsets := offsets st3 @ map offset (take k ?m),
               buffers := buffers st3 @ buffers_of (take k ?m),
               input := (input st3)\<lparr>calls := calls (input st3) @ reads_of (take k ?m)\<rparr>\<rparr>, ())"
        and ok: "el = None \<longrightarrow> k = length ?m
           \<and> (\<forall>j < k. \<not> fails (calls (input st3) @ reads_of (take j ?m)) (reads_of ?m ! j))"
        and bad: "el \<noteq> None \<longrightarrow> el = Some IoError \<and> 0 < k
           \<and> fails (calls (input st3) @ reads_of (take (k - 1) ?m)) (reads_of ?m ! (k - 1))
           \<and> (\<forall>j < k - 1. \<not> fails (calls (input st3) @ reads_of (take j ?m)) (reads_of ?m ! j))"
        by blast
      have res: "e = el" "st' = (if el = None then (fst w)\<lparr>regions := []\<rparr> else fst w)"
        using ld unfold mr None False lw st3
        by (auto simp add: loadWithAction_def split: option.splits)
      show ?thesis
        apply (rule disjI2)
        apply (rule exI [of _ k])
        using k ok bad False res w st3 mm
        apply (cases el)
         apply simp_all
        done
    next
      case True
      let ?st4 = "st3\<lparr>offsets := offsets st3 @ map offset ?m,
                     buffers := buffers st3 @ buffers_of ?m\<rparr>"
      let ?c = "VRead (buffers_of ?m) ?m"
      have lw: "loadWithAction collect_action (st3, ([], [], 0))
          = (None, (?st4, (buffers_of ?m, ?m, sum_list (map length_r ?m))))"
        using loadWithAction_loop_collect [of ?m st3 "[]" "[]" 0] st3
        by (simp add: loadWithAction_def)
      have vr: "vread fails (input ?st4) (buffers_of ?m) ?m
          = ((if fails (calls (input st)) ?c then Some IoError else None),
             (input st3)\<lparr>calls := calls (input st) @ [?c]\<rparr>)"
        using st3 by (simp add: vread_def backend_def)
      have res: "e = (if fails (calls (input st)) ?c then Some IoError else None)"
        "st' = (if fails (calls (input st)) ?c
                then ?st4\<lparr>input := (input st3)\<lparr>calls := calls (input st) @ [?c]\<rparr>\<rparr>
                else ?st4\<lparr>input := (input st3)\<lparr>calls := calls (input st) @ [?c]\<rparr>, regions := []\<rparr>)"
        using ld unfold mr None True lw vr st3
        by (auto split: option.splits)
      show ?thesis
        apply (rule disjI2)
        apply (rule exI [of _ "length ?m"])
        using True res st3 mm
        apply simp
        done
    qed
  qed
qed

section \<open>Separation of the merged regions and of the index\<close>

lemma zip_offsets_buffers:
  "map (\<lambda>e. \<lparr>offset = fst e, length_r = buffer_size (snd e)\<rparr>)
     (zip (map offset rs) (buffers_of rs)) = rs"
  by (induction rs) (simp_all add: buffers_of_def)

lemma index_regions_of:
  assumes "offsets st = map offset rs" and "buffers st = buffers_of rs"
  shows "index_regions st = rs"
  using assms by (simp add: index_regions_def zip_offsets_buffers)

lemma coalesced_regions_separated:
  assumes ne: "regions st \<noteq> []" and rng: "\<forall>r \<in> set (regions st). in_range r"
  shows "pairwise_separated (maxMergeDistance st) (coalesced_regions st)
       \<and> increasing_offsets (coalesced_regions st)
       \<and> (\<forall>x \<in> set (coalesced_regions st). in_range x)"
proof -
  let ?s = "sorted_regions st"
  have "?s \<noteq> []"
    using ne sorted_regions_facts(3) [of st] by simp
  then have eq: "hd ?s # tl ?s = ?s"
    by simp
  have "sorted (map offset (hd ?s # tl ?s))" and "\<forall>x \<in> set (hd ?s # tl ?s). in_range x"
    using sorted_regions_facts(1,2) [of st] rng by (simp_all only: eq)
  then show ?thesis
    unfolding coalesced_regions_def by (rule coalesce_separated)
qed

lemma load_index_separated:
  assumes rng: "\<forall>r \<in> set (regions st). in_range r" and inv: "index_separated st"
  shows "index_separated (snd (load fails st))"
proof (cases "regions st = []")
  case True
  then show ?thesis
    using inv by (simp add: load_def)
next
  case False
  obtain e st' where ld: "load fails st = (e, st')"
    by (cases "load fails st") auto
  note sep = coalesced_regions_separated [OF False rng]
  from load_result [OF False ld] show ?thesis
  proof (elim disjE exE conjE)
    fix msg
    assume "offsets st' = []" "buffers st' = []"
    then show ?thesis
      using ld by (simp add: index_separated_def index_regions_def
          increasing_offsets_def pairwise_separated_def)
  next
    fix k
    assume o: "offsets st' = map offset (take k (coalesced_regions st))"
      and b: "buffers st' = buffers_of (take k (coalesced_regions st))"
      and m: "maxMergeDistance st' = maxMergeDistance st"
    have "index_regions st' = take k (coalesced_regions st)"
      using o b by (rule index_regions_of)
    moreover have "length (offsets st') = length (buffers st')"
      using o b by (simp add: buffers_of_def)
    ultimately show ?thesis
      using sep ld m
      by (simp add: index_separated_def increasing_offsets_def pairwise_separated_def
          sorted_wrt_take)
  qed
qed

text \<open>
  C2 (as amended). Let every pending region lie in the signed 64-bit offset range (end
  below \<open>2 ^ 63\<close>). If the region list is non-empty, of positive-length regions and
  sorted by (offset, length), then \<open>mergeRegions\<close> returns, and the merged list has
  strictly increasing offsets and every two of its regions, consecutive ones included,
  are separated by a gap strictly greater than \<open>maxMergeDistance\<close>. And \<open>load\<close>
  keeps this as an invariant of the offsets/buffers index: an index that is separated is
  separated after \<open>load\<close>, however \<open>load\<close> ends.
\<close>

theorem merged_regions_separated:
  assumes "\<forall>r \<in> set (regions st). in_range r"
  shows "(regions st \<noteq> [] \<and> (\<forall>r \<in> set (regions st). 0 < length_r r)
            \<and> sorted (map region_key (regions st))
          \<longrightarrow> (\<exists>st'. mergeRegions st = (None, st')
                 \<and> increasing_offsets (regions st')
                 \<and> pairwise_separated (maxMergeDistance st) (regions st')))
       \<and> (index_separated st \<longrightarrow> index_separated (snd (load fails st)))"
proof (intro conjI impI)
  assume a: "regions st \<noteq> [] \<and> (\<forall>r \<in> set (regions st). 0 < length_r r)
      \<and> sorted (map region_key (regions st))"
  then have ne: "regions st \<noteq> []" and pos: "\<forall>r \<in> set (regions st). 0 < length_r r"
    and srt: "sorted (map offset (regions st))"
    by (simp_all add: sorted_region_key_offset)
  let ?r = "regions st"
  have eq: "hd ?r # tl ?r = ?r"
    using ne by simp
  have "sorted (map offset (hd ?r # tl ?r))" and "\<forall>x \<in> set (hd ?r # tl ?r). in_range x"
    using srt assms by (simp_all only: eq)
  from coalesce_separated [OF this, of "maxMergeDistance st" "stats (input st)"]
  show "\<exists>st'. mergeRegions st = (None, st')
                 \<and> increasing_offsets (regions st')
                 \<and> pairwise_separated (maxMergeDistance st) (regions st')"
    using mergeRegions_returns [OF ne srt pos] by simp
next
  assume "index_separated st"
  with assms show "index_separated (snd (load fails st))"
    by (rule load_index_separated)
qed

theorem merged_regions_separated_witness:
  "(\<exists>st'. mergeRegions
        \<lparr>regions = [\<lparr>offset = 0, length_r = 10\<rparr>, \<lparr>offset = 12, length_r = 8\<rparr>,
                    \<lparr>offset = 40, length_r = 5\<rparr>],
         offsets = [], buffers = [], maxMergeDistance = 4, wsVRLoad = False,
         input = \<lparr>stats = None, calls = []\<rparr>\<rparr> = (None, st')
      \<and> increasing_offsets (regions st') \<and> pairwise_separated 4 (regions st'))
   \<and> index_separated (snd (load (\<lambda>cs c. False)
        \<lparr>regions = [\<lparr>offset = 0, length_r = 10\<rparr>, \<lparr>offset = 12, length_r = 8\<rparr>,
                    \<lparr>offset = 40, length_r = 5\<rparr>],
         offsets = [], buffers = [], maxMergeDistance = 4, wsVRLoad = False,
         input = \<lparr>stats = None, calls = []\<rparr>\<rparr>))"
  using merged_regions_separated [of
        "\<lparr>regions = [\<lparr>offset = 0, length_r = 10\<rparr>, \<lparr>offset = 12, length_r = 8\<rparr>,
                    \<lparr>offset = 40, length_r = 5\<rparr>],
         offsets = [], buffers = [], maxMergeDistance = 4, wsVRLoad = False,
         input = \<lparr>stats = None, calls = []\<rparr>\<rparr>" "\<lambda>cs c. False"]
  by (simp add: in_range_def region_end_def region_key_def index_separated_def
      index_regions_def increasing_offsets_def pairwise_separated_def)

text \<open>
  C2 as stated fails outside that range: [0, 2^63 + 5) and [1, 2) are sorted and of
  positive length and the second lies inside the first, yet the gap read as
  \<^verbatim>\<open>int64_t\<close> is 2^63 - 4, the regions are not merged, and the two regions that
  \<open>mergeRegions\<close> leaves overlap.
\<close>

theorem mergeRegions_not_separated_counterexample:
  "sorted (map region_key [\<lparr>offset = 0, length_r = 2 ^ 63 + 5\<rparr>, \<lparr>offset = 1, length_r = 1\<rparr>])
   \<and> mergeRegions
        \<lparr>regions = [\<lparr>offset = 0, length_r = 2 ^ 63 + 5\<rparr>, \<lparr>offset = 1, length_r = 1\<rparr>],
         offsets = [], buffers = [], maxMergeDistance = 0, wsVRLoad = False,
         input = \<lparr>stats = None, calls = []\<rparr>\<rparr>
      = (None,
         \<lparr>regions = [\<lparr>offset = 0, length_r = 2 ^ 63 + 5\<rparr>, \<lparr>offset = 1, length_r = 1\<rparr>],
          offsets = [], buffers = [], maxMergeDistance = 0, wsVRLoad = False,
          input = \<lparr>stats = None, calls = []\<rparr>\<rparr>)
   \<and> \<not> pairwise_separated 0 [\<lparr>offset = 0, length_r = 2 ^ 63 + 5\<rparr>, \<lparr>offset = 1, length_r = 1\<rparr>]"
  by (simp add: region_key_def mergeRegions_def mergeRegions_loop.simps tryMerge_def Let_def
      pairwise_separated_def separated_def gap_spec_def region_end_def)

section \<open>Over-read accounting\<close>

lemma uint_positive_gap:
  assumes A: "in_range A" and B: "in_range B" and pos: "0 < gap_spec A B"
  shows "uint (word_of_int (gap_spec A B) :: u64) = gap_spec A B"
proof -
  have "uint (offset B) < 2 ^ 64"
    using uint_lt2p [of "offset B"] by simp
  then have "gap_spec A B < 2 ^ 64"
    using uint_ge_0 [of "offset A"] uint_ge_0 [of "length_r A"]
    unfolding gap_spec_def region_end_def by linarith
  with pos show ?thesis
    by (simp add: uint_of_int_range)
qed

lemma coalesce_overread:
  assumes "sorted (map offset (cur # xs))" and "\<forall>x \<in> set (cur # xs). in_range x"
  shows "\<exists>l'. snd (coalesce mmd (Some l) cur xs) = Some (l @ l')
           \<and> sum_list (map uint l')
               = overread_spec (uint mmd) (region_ints cur) (map region_ints xs)"
  using assms
proof (induction xs arbitrary: cur l)
  case Nil
  then show ?case by simp
next
  case (Cons x xs)
  have le: "offset cur \<le> offset x" and cur: "in_range cur" and x: "in_range x"
    using Cons.prems by simp_all
  note tm = tryMerge_in_range [OF le cur x, of mmd "Some l"]
  have cond: "(fst (region_ints x) + snd (region_ints x)
                 \<le> fst (region_ints cur) + snd (region_ints cur)
               \<or> fst (region_ints x) - (fst (region_ints cur) + snd (region_ints cur)) \<le> uint mmd)
              \<longleftrightarrow> gap_spec cur x \<le> uint mmd"
    using merges_spec_iff_gap [of mmd cur x]
    by (simp add: merges_spec_def gap_spec_def region_end_def region_ints_def)
  have g: "fst (region_ints x) - (fst (region_ints cur) + snd (region_ints cur)) = gap_spec cur x"
    by (simp add: gap_spec_def region_end_def region_ints_def)
  show ?case
  proof (cases "gap_spec cur x \<le> uint mmd")
    case merge: True
    let ?A' = "cur\<lparr>length_r := word_of_int (merged_length_spec cur x)\<rparr>"
    have srt: "sorted (map offset (?A' # xs))" and rng: "\<forall>x \<in> set (?A' # xs). in_range x"
      using Cons.prems in_range_merged [OF cur x le] by simp_all
    have ints: "region_ints ?A'
        = (fst (region_ints cur),
           max (snd (region_ints cur))
             ((fst (region_ints x) - fst (region_ints cur)) + snd (region_ints x)))"
      using uint_merged_length [OF cur x le]
      by (simp add: region_ints_def merged_length_spec_def)
    show ?thesis
    proof (cases "0 < gap_spec cur x")
      case True
      let ?l1 = "l @ [word_of_int (gap_spec cur x)]"
      from Cons.IH [OF srt rng, of ?l1] obtain l' where
        l': "snd (coalesce mmd (Some ?l1) ?A' xs) = Some (?l1 @ l')"
        and sum: "sum_list (map uint l')
               = overread_spec (uint mmd) (region_ints ?A') (map region_ints xs)"
        by blast
      have "snd (coalesce mmd (Some l) cur (x # xs))
          = Some (l @ (word_of_int (gap_spec cur x) # l'))"
        using tm merge True l' by simp
      moreover have "sum_list (map uint (word_of_int (gap_spec cur x) # l'))
          = overread_spec (uint mmd) (region_ints cur) (map region_ints (x # xs))"
        using sum merge True cond g uint_positive_gap [OF cur x True]
        by (simp add: Let_def ints)
      ultimately show ?thesis
        by blast
    next
      case False
      from Cons.IH [OF srt rng, of l] obtain l' where
        l': "snd (coalesce mmd (Some l) ?A' xs) = Some (l @ l')"
        and sum: "sum_list (map uint l')
               = overread_spec (uint mmd) (region_ints ?A') (map region_ints xs)"
        by blast
      have "snd (coalesce mmd (Some l) cur (x # xs)) = Some (l @ l')"
        using tm merge False l' by simp
      moreover have "sum_list (map uint l')
          = overread_spec (uint mmd) (region_ints cur) (map region_ints (x # xs))"
        using sum merge False cond g by (simp add: Let_def ints)
      ultimately show ?thesis
        by blast
    qed
  next
    case False
    have srt: "sorted (map offset (x # xs))" and rng: "\<forall>y \<in> set (x # xs). in_range y"
      using Cons.prems by simp_all
    from Cons.IH [OF srt rng, of l] obtain l' where
      l': "snd (coalesce mmd (Some l) x xs) = Some (l @ l')"
      and sum: "sum_list (map uint l')
               = overread_spec (uint mmd) (region_ints x) (map region_ints xs)"
      by blast
    have "snd (coalesce mmd (Some l) cur (x # xs)) = Some (l @ l')"
      using tm False l' by (auto split: prod.splits)
    moreover have "sum_list (map uint l')
        = overread_spec (uint mmd) (region_ints cur) (map region_ints (x # xs))"
      using sum False cond g by (simp add: Let_def)
    ultimately show ?thesis
      by blast
  qed
qed

text \<open>
  C5 (as amended). For every merge pass over a non-empty list of positive-length regions
  that end below \<open>2 ^ 63\<close>, sorted by (offset, length), with a statistics sink
  attached: the values passed to \<^verbatim>\<open>incRawOverreadBytes\<close> during the pass are
  appended to the sink, and their sum is the specification's over-read: the sum of the
  gaps of the pairs that merged with a strictly positive gap, nothing for a merge by
  overlap or containment and nothing for a pair that did not merge.
\<close>

theorem mergeRegions_overread_sum:
  assumes "regions st \<noteq> []"
    and "\<forall>r \<in> set (regions st). 0 < length_r r \<and> in_range r"
    and "sorted (map region_key (regions st))"
    and "stats (input st) = Some l"
  shows "\<exists>st' l'. mergeRegions st = (None, st')
           \<and> stats (input st') = Some (l @ l')
           \<and> sum_list (map uint l')
               = overread_spec (uint (maxMergeDistance st))
                   (region_ints (hd (regions st))) (map region_ints (tl (regions st)))"
proof -
  let ?r = "regions st"
  have ne: "?r \<noteq> []" and pos: "\<forall>r \<in> set ?r. 0 < length_r r"
    and srt: "sorted (map offset ?r)"
    using assms by (simp_all add: sorted_region_key_offset)
  have eq: "hd ?r # tl ?r = ?r"
    using ne by simp
  have "sorted (map offset (hd ?r # tl ?r))"
    using srt by (simp only: eq)
  moreover have "\<forall>x \<in> set (hd ?r # tl ?r). in_range x"
    using assms(2) by (simp only: eq) simp
  ultimately have "\<exists>l'. snd (coalesce (maxMergeDistance st) (Some l) (hd ?r) (tl ?r)) = Some (l @ l')
           \<and> sum_list (map uint l')
               = overread_spec (uint (maxMergeDistance st)) (region_ints (hd ?r))
                   (map region_ints (tl ?r))"
    by (rule coalesce_overread)
  then show ?thesis
    using mergeRegions_returns [OF ne srt pos] assms(4) by auto
qed

theorem mergeRegions_overread_sum_witness:
  "\<exists>st' l'. mergeRegions
        \<lparr>regions = [\<lparr>offset = 0, length_r = 10\<rparr>, \<lparr>offset = 5, length_r = 3\<rparr>,
                    \<lparr>offset = 12, length_r = 8\<rparr>, \<lparr>offset = 40, length_r = 5\<rparr>],
         offsets = [], buffers = [], maxMergeDistance = 4, wsVRLoad = False,
         input = \<lparr>stats = Some [7], calls = []\<rparr>\<rparr> = (None, st')
      \<and> stats (input st') = Some ([7] @ l') \<and> sum_list (map uint l') = 2"
  using mergeRegions_overread_sum [of
        "\<lparr>regions = [\<lparr>offset = 0, length_r = 10\<rparr>, \<lparr>offset = 5, length_r = 3\<rparr>,
                    \<lparr>offset = 12, length_r = 8\<rparr>, \<lparr>offset = 40, length_r = 5\<rparr>],
         offsets = [], buffers = [], maxMergeDistance = 4, wsVRLoad = False,
         input = \<lparr>stats = Some [7], calls = []\<rparr>\<rparr>" "[7]"]
  by (simp add: in_range_def region_end_def region_key_def region_ints_def Let_def)

text \<open>
  C5 as stated fails outside that range: [0, 1) and [3, 3 + 2^63) with merge distance 4
  merge with the positive gap 2, yet the extension read as \<^verbatim>\<open>int64_t\<close> is negative
  and nothing is passed to the sink.
\<close>

theorem mergeRegions_overread_counterexample:
  "sorted (map region_key [\<lparr>offset = 0, length_r = 1\<rparr>, \<lparr>offset = 3, length_r = 2 ^ 63\<rparr>])
   \<and> stats (input (snd (mergeRegions
        \<lparr>regions = [\<lparr>offset = 0, length_r = 1\<rparr>, \<lparr>offset = 3, length_r = 2 ^ 63\<rparr>],
         offsets = [], buffers = [], maxMergeDistance = 4, wsVRLoad = False,
         input = \<lparr>stats = Some [], calls = []\<rparr>\<rparr>))) = Some []
   \<and> fst (mergeRegions
        \<lparr>regions = [\<lparr>offset = 0, length_r = 1\<rparr>, \<lparr>offset = 3, length_r = 2 ^ 63\<rparr>],
         offsets = [], buffers = [], maxMergeDistance = 4, wsVRLoad = False,
         input = \<lparr>stats = Some [], calls = []\<rparr>\<rparr>) = None
   \<and> overread_spec 4 (region_ints \<lparr>offset = 0, length_r = 1\<rparr>)
        (map region_ints [\<lparr>offset = 3, length_r = 2 ^ 63\<rparr>]) = 2"
  by (simp add: region_key_def mergeRegions_def mergeRegions_loop.simps tryMerge_def Let_def
      region_ints_def)

section \<open>Backend calls of a load\<close>

lemma coalesced_regions_sorted:
  assumes "regions st \<noteq> []"
  shows "sorted (map offset (coalesced_regions st)) \<and> coalesced_regions st \<noteq> []"
proof -
  let ?s = "sorted_regions st"
  have "?s \<noteq> []"
    using assms sorted_regions_facts(3) [of st] by simp
  then have eq: "hd ?s # tl ?s = ?s"
    by simp
  have "sorted (map offset (hd ?s # tl ?s))"
    using sorted_regions_facts(1) [of st] by (simp only: eq)
  from coalesce_offsets [OF this] show ?thesis
    by (simp add: coalesced_regions_def)
qed

text \<open>
  C8 (as amended). For every load in scalar (non-vectored) mode with a non-empty
  RegionSet that returns (no backend read fails), the index holds the merged regions,
  the backend's read is invoked exactly once per merged region, one call after the
  other, and in the order of the merged regions, which is by ascending offset (the
  regions are sorted before they are merged), not the order in which they were enqueued.
\<close>

theorem load_scalar_reads_by_offset:
  assumes "regions st \<noteq> []" and "\<not> wsVRLoad st" and "load fails st = (None, st')"
  shows "index_regions st' = merged_regions st
       \<and> calls (input st') = calls (input st) @ reads_of (index_regions st')
       \<and> sorted (map offset (index_regions st'))"
proof -
  from load_result [OF assms(1,3)] obtain k where
    m: "merged_regions st = coalesced_regions st"
    and o: "offsets st' = map offset (take k (coalesced_regions st))"
    and b: "buffers st' = buffers_of (take k (coalesced_regions st))"
    and k: "k = length (coalesced_regions st)"
    and c: "calls (input st') = calls (input st) @ reads_of (take k (coalesced_regions st))"
    using assms(2) by auto
  have "index_regions st' = coalesced_regions st"
    using index_regions_of [OF o b] k by simp
  then show ?thesis
    using c k m coalesced_regions_sorted [OF assms(1)] by simp
qed

theorem load_scalar_reads_by_offset_witness:
  "calls (input (snd (load (\<lambda>cs c. False)
      \<lparr>regions = [\<lparr>offset = 100, length_r = 10\<rparr>, \<lparr>offset = 12, length_r = 8\<rparr>,
                  \<lparr>offset = 0, length_r = 10\<rparr>],
       offsets = [], buffers = [], maxMergeDistance = 4, wsVRLoad = False,
       input = \<lparr>stats = None, calls = []\<rparr>\<rparr>)))
     = reads_of [\<lparr>offset = 0, length_r = 20\<rparr>, \<lparr>offset = 100, length_r = 10\<rparr>]
   \<and> index_regions (snd (load (\<lambda>cs c. False)
      \<lparr>regions = [\<lparr>offset = 100, length_r = 10\<rparr>, \<lparr>offset = 12, length_r = 8\<rparr>,
                  \<lparr>offset = 0, length_r = 10\<rparr>],
       offsets = [], buffers = [], maxMergeDistance = 4, wsVRLoad = False,
       input = \<lparr>stats = None, calls = []\<rparr>\<rparr>))
     = [\<lparr>offset = 0, length_r = 20\<rparr>, \<lparr>offset = 100, length_r = 10\<rparr>]"
proof -
  let ?st = "\<lparr>regions = [\<lparr>offset = 100, length_r = 10\<rparr>, \<lparr>offset = 12, length_r = 8\<rparr>,
                  \<lparr>offset = 0, length_r = 10\<rparr>],
       offsets = [], buffers = [], maxMergeDistance = 4, wsVRLoad = False,
       input = \<lparr>stats = None, calls = []\<rparr>\<rparr> :: BufferedInput"
  let ?f = "\<lambda>(cs :: backend_call list) (c :: backend_call). False"
  have ld: "load ?f ?st = (None, snd (load ?f ?st))"
    by (simp add: load_def Let_def region_key_def mergeRegions_def mergeRegions_loop.simps
        tryMerge_def loadWithAction_def readRegion_def read_action_def read_def backend_def)
  have idx: "index_regions (snd (load ?f ?st))
      = [\<lparr>offset = 0, length_r = 20\<rparr>, \<lparr>offset = 100, length_r = 10\<rparr>]"
    by (simp add: load_def Let_def region_key_def mergeRegions_def mergeRegions_loop.simps
        tryMerge_def loadWithAction_def readRegion_def read_action_def read_def backend_def
        index_regions_def)
  have "regions ?st \<noteq> []" and "\<not> wsVRLoad ?st"
    by simp_all
  from load_scalar_reads_by_offset [OF this ld] idx show ?thesis
    by simp
qed

text \<open>
  C8 as stated fails: with the merge distance 0, [100, 110) is enqueued first and
  [0, 10) second; nothing is merged, and the first read is for [0, 10), the region
  enqueued last. And when a read fails the regions after it are not read at all.
\<close>

theorem load_reads_not_in_enqueue_order_counterexample:
  "enqueue \<lparr>regions = [], offsets = [], buffers = [], maxMergeDistance = 0, wsVRLoad = False,
            input = \<lparr>stats = None, calls = []\<rparr>\<rparr> \<lparr>offset = 100, length_r = 10\<rparr>
     = Inr (LazyStream \<lparr>offset = 100, length_r = 10\<rparr>,
            \<lparr>regions = [\<lparr>offset = 100, length_r = 10\<rparr>], offsets = [], buffers = [],
             maxMergeDistance = 0, wsVRLoad = False, input = \<lparr>stats = None, calls = []\<rparr>\<rparr>)
   \<and> enqueue \<lparr>regions = [\<lparr>offset = 100, length_r = 10\<rparr>], offsets = [], buffers = [],
              maxMergeDistance = 0, wsVRLoad = False, input = \<lparr>stats = None, calls = []\<rparr>\<rparr>
        \<lparr>offset = 0, length_r = 10\<rparr>
     = Inr (LazyStream \<lparr>offset = 0, length_r = 10\<rparr>,
            \<lparr>regions = [\<lparr>offset = 100, length_r = 10\<rparr>, \<lparr>offset = 0, length_r = 10\<rparr>],
             offsets = [], buffers = [], maxMergeDistance = 0, wsVRLoad = False,
             input = \<lparr>stats = None, calls = []\<rparr>\<rparr>)
   \<and> load (\<lambda>cs c. False)
        \<lparr>regions = [\<lparr>offset = 100, length_r = 10\<rparr>, \<lparr>offset = 0, length_r = 10\<rparr>],
         offsets = [], buffers = [], maxMergeDistance = 0, wsVRLoad = False,
         input = \<lparr>stats = None, calls = []\<rparr>\<rparr>
     = (None,
        \<lparr>regions = [], offsets = [0, 100], buffers = [Buffer 10, Buffer 10],
         maxMergeDistance = 0, wsVRLoad = False,
         input = \<lparr>stats = None, calls = [Read 10 0, Read 10 100]\<rparr>\<rparr>)
   \<and> calls (input (snd (load (\<lambda>cs c. True)
        \<lparr>regions = [\<lparr>offset = 100, length_r = 10\<rparr>, \<lparr>offset = 0, length_r = 10\<rparr>],
         offsets = [], buffers = [], maxMergeDistance = 0, wsVRLoad = False,
         input = \<lparr>stats = None, calls = []\<rparr>\<rparr>))) = [Read 10 0]"
  by (simp add: enqueue_def readBuffer_def readInternal_def upper_bound_def MAX_UINT64_def
      load_def Let_def region_key_def mergeRegions_def mergeRegions_loop.simps
      tryMerge_def loadWithAction_def readRegion_def read_action_def read_def backend_def)

lemma append_eq_later:
  assumes "xs @ ys = cs @ c # rest" and "length xs \<le> length cs"
  shows "\<exists>j < length ys. cs = xs @ take j ys \<and> c = ys ! j \<and> rest = drop (Suc j) ys"
  using assms
proof (induction xs arbitrary: cs)
  case Nil
  then have "ys = cs @ c # rest"
    by simp
  then show ?case
    by (intro exI [of _ "length cs"]) simp
next
  case (Cons x xs)
  then obtain cs' where cs: "cs = x # cs'"
    by (cases cs) auto
  with Cons.prems have "xs @ ys = cs' @ c # rest" "length xs \<le> length cs'"
    by simp_all
  from Cons.IH [OF this] show ?case
    by (simp add: cs)
qed

text \<open>
  C9 (as amended). For every load during which a backend read or vread call fails (a
  call \<open>c\<close> made during the load, after the calls \<open>cs\<close>, throws), the failure
  propagates out of load; it is not retried and no backend call follows it; the pending
  RegionSet is not cleared: after the failed load it holds the sorted, merged regions
  and is not empty.
\<close>

theorem load_backend_failure_propagates:
  assumes ld: "load fails st = (e, st')"
    and log: "calls (input st') = cs @ c # rest"
    and during: "length (calls (input st)) \<le> length cs"
    and failed: "fails cs c"
  shows "e = Some IoError \<and> rest = []
       \<and> regions st' = merged_regions st \<and> regions st' \<noteq> []"
proof (cases "regions st = []")
  case True
  then have "calls (input st') = calls (input st)"
    using ld by (simp add: load_def)
  moreover have "length (calls (input st')) = length cs + Suc (length rest)"
    using log by simp
  ultimately show ?thesis
    using during by simp
next
  case False
  let ?m = "coalesced_regions st"
  from load_result [OF False ld] show ?thesis
  proof (elim disjE exE conjE)
    fix msg
    assume "calls (input st') = calls (input st)"
    moreover have "length (calls (input st')) = length cs + Suc (length rest)"
      using log by simp
    ultimately show ?thesis
      using during by simp
  next
    fix k
    assume k: "k \<le> length ?m"
      and mm: "merged_regions st = ?m"
      and ok: "e = None \<longrightarrow> k = length ?m \<and> regions st' = []"
      and bad: "e \<noteq> None \<longrightarrow> e = Some IoError \<and> regions st' = ?m"
      and scalar: "\<not> wsVRLoad st \<longrightarrow>
                 calls (input st') = calls (input st) @ reads_of (take k ?m)
               \<and> (e = None \<longrightarrow>
                     (\<forall>j < k. \<not> fails (calls (input st) @ reads_of (take j ?m)) (reads_of ?m ! j)))
               \<and> (e \<noteq> None \<longrightarrow> 0 < k
                    \<and> fails (calls (input st) @ reads_of (take (k - 1) ?m)) (reads_of ?m ! (k - 1))
                    \<and> (\<forall>j < k - 1.
                          \<not> fails (calls (input st) @ reads_of (take j ?m)) (reads_of ?m ! j)))"
      and vectored: "wsVRLoad st \<longrightarrow> k = length ?m
               \<and> calls (input st') = calls (input st) @ [VRead (buffers_of ?m) ?m]
               \<and> (e \<noteq> None \<longleftrightarrow> fails (calls (input st)) (VRead (buffers_of ?m) ?m))"
    have ne: "?m \<noteq> []"
      using coalesced_regions_sorted [OF False] by simp
    show ?thesis
    proof (cases "wsVRLoad st")
      case True
      with vectored have c: "calls (input st) @ [VRead (buffers_of ?m) ?m] = cs @ c # rest"
        and iff: "e \<noteq> None \<longleftrightarrow> fails (calls (input st)) (VRead (buffers_of ?m) ?m)"
        using log by simp_all
      from append_eq_later [OF c during] have "cs = calls (input st)"
        and "c = VRead (buffers_of ?m) ?m" and "rest = []"
        by auto
      then show ?thesis
        using failed iff bad ne mm by simp
    next
      case False
      with scalar have c: "calls (input st) @ reads_of (take k ?m) = cs @ c # rest"
        and nofail: "e = None \<longrightarrow>
            (\<forall>j < k. \<not> fails (calls (input st) @ reads_of (take j ?m)) (reads_of ?m ! j))"
        and first: "e \<noteq> None \<longrightarrow> 0 < k
            \<and> (\<forall>j < k - 1. \<not> fails (calls (input st) @ reads_of (take j ?m)) (reads_of ?m ! j))"
        using log by simp_all
      from append_eq_later [OF c during] obtain j where j: "j < k"
        and cs: "cs = calls (input st) @ take j (reads_of (take k ?m))"
        and cj: "c = reads_of (take k ?m) ! j"
        and rest: "rest = drop (Suc j) (reads_of (take k ?m))"
        using k by (auto simp add: reads_of_def)
      have cs': "cs = calls (input st) @ reads_of (take j ?m)"
        using cs j by (simp add: reads_of_def take_map min_def)
      have cj': "c = reads_of ?m ! j"
        using cj j k by (simp add: reads_of_def)
      have fj: "fails (calls (input st) @ reads_of (take j ?m)) (reads_of ?m ! j)"
        using failed cs' cj' by simp
      have e: "e \<noteq> None"
        using fj nofail j by blast
      then have "\<not> j < k - 1"
        using fj first by blast
      then have "Suc j = k"
        using j by simp
      then have "rest = []"
        using rest k by (simp add: reads_of_def)
      then show ?thesis
        using e bad ne mm by simp
    qed
  qed
qed

theorem load_backend_failure_propagates_witness:
  "load (\<lambda>cs c. length cs = 1)
      \<lparr>regions = [\<lparr>offset = 100, length_r = 10\<rparr>, \<lparr>offset = 0, length_r = 10\<rparr>,
                  \<lparr>offset = 50, length_r = 10\<rparr>],
       offsets = [], buffers = [], maxMergeDistance = 4, wsVRLoad = False,
       input = \<lparr>stats = None, calls = []\<rparr>\<rparr>
     = (Some IoError,
        \<lparr>regions = [\<lparr>offset = 0, length_r = 10\<rparr>, \<lparr>offset = 50, length_r = 10\<rparr>,
                    \<lparr>offset = 100, length_r = 10\<rparr>],
         offsets = [0, 50], buffers = [Buffer 10, Buffer 10], maxMergeDistance = 4,
         wsVRLoad = False, input = \<lparr>stats = None, calls = [Read 10 0, Read 10 50]\<rparr>\<rparr>)
   \<and> merged_regions
      \<lparr>regions = [\<lparr>offset = 100, length_r = 10\<rparr>, \<lparr>offset = 0, length_r = 10\<rparr>,
                  \<lparr>offset = 50, length_r = 10\<rparr>],
       offsets = [], buffers = [], maxMergeDistance = 4, wsVRLoad = False,
       input = \<lparr>stats = None, calls = []\<rparr>\<rparr>
     = [\<lparr>offset = 0, length_r = 10\<rparr>, \<lparr>offset = 50, length_r = 10\<rparr>,
        \<lparr>offset = 100, length_r = 10\<rparr>]"
proof -
  let ?st = "\<lparr>regions = [\<lparr>offset = 100, length_r = 10\<rparr>, \<lparr>offset = 0, length_r = 10\<rparr>,
                  \<lparr>offset = 50, length_r = 10\<rparr>],
       offsets = [], buffers = [], maxMergeDistance = 4, wsVRLoad = False,
       input = \<lparr>stats = None, calls = []\<rparr>\<rparr> :: BufferedInput"
  let ?st' = "\<lparr>regions = [\<lparr>offset = 0, length_r = 10\<rparr>, \<lparr>offset = 50, length_r = 10\<rparr>,
                    \<lparr>offset = 100, length_r = 10\<rparr>],
         offsets = [0, 50], buffers = [Buffer 10, Buffer 10], maxMergeDistance = 4,
         wsVRLoad = False, input = \<lparr>stats = None, calls = [Read 10 0, Read 10 50]\<rparr>\<rparr> :: BufferedInput"
  let ?f = "\<lambda>(cs :: backend_call list) (c :: backend_call). length cs = 1"
  have ld: "load ?f ?st = (Some IoError, ?st')"
    by (simp add: load_def Let_def region_key_def mergeRegions_def mergeRegions_loop.simps
        tryMerge_def loadWithAction_def readRegion_def read_action_def read_def backend_def)
  have log: "calls (input ?st') = [Read 10 0] @ Read 10 50 # []"
    and during: "length (calls (input ?st)) \<le> length [Read 10 0]"
    and failed: "?f [Read 10 0] (Read 10 50)"
    by simp_all
  from load_backend_failure_propagates [OF ld log during failed] ld show ?thesis
    by simp
qed

text \<open>
  C9 as stated fails: \<open>load\<close> clears the RegionSet only on its last line, which a
  throwing backend call skips. With the single pending region [0, 10) and a backend whose
  read throws, \<open>load\<close> throws and the RegionSet still holds [0, 10).
\<close>

theorem load_failure_keeps_regions_counterexample:
  "load (\<lambda>cs c. True)
      \<lparr>regions = [\<lparr>offset = 0, length_r = 10\<rparr>], offsets = [], buffers = [],
       maxMergeDistance = 4, wsVRLoad = False, input = \<lparr>stats = None, calls = []\<rparr>\<rparr>
     = (Some IoError,
        \<lparr>regions = [\<lparr>offset = 0, length_r = 10\<rparr>], offsets = [0], buffers = [Buffer 10],
         maxMergeDistance = 4, wsVRLoad = False,
         input = \<lparr>stats = None, calls = [Read 10 0]\<rparr>\<rparr>)
   \<and> load (\<lambda>cs c. True)
      \<lparr>regions = [\<lparr>offset = 0, length_r = 10\<rparr>], offsets = [], buffers = [],
       maxMergeDistance = 4, wsVRLoad = True, input = \<lparr>stats = None, calls = []\<rparr>\<rparr>
     = (Some IoError,
        \<lparr>regions = [\<lparr>offset = 0, length_r = 10\<rparr>], offsets = [0], buffers = [Buffer 10],
         maxMergeDistance = 4, wsVRLoad = True,
         input = \<lparr>stats = None,
                  calls = [VRead [Buffer 10] [\<lparr>offset = 0, length_r = 10\<rparr>]]\<rparr>\<rparr>)"
  by (simp add: load_def Let_def region_key_def mergeRegions_def mergeRegions_loop.simps
      tryMerge_def loadWithAction_def readRegion_def read_action_def read_def backend_def
      collect_action_def vread_def)

section \<open>Lookup in the index\<close>

lemma upper_bound_sorted:
  assumes "sorted xs"
  shows "upper_bound xs v \<le> length xs"
    and "\<forall>i < upper_bound xs v. xs ! i \<le> v"
    and "\<forall>i. upper_bound xs v \<le> i \<and> i < length xs \<longrightarrow> v < xs ! i"
proof -
  let ?n = "length (takeWhile (\<lambda>x. \<not> v < x) xs)"
  show "upper_bound xs v \<le> length xs"
    by (simp add: upper_bound_def length_takeWhile_le)
  show "\<forall>i < upper_bound xs v. xs ! i \<le> v"
  proof (intro allI impI)
    fix i assume "i < upper_bound xs v"
    then have i: "i < ?n"
      by (simp add: upper_bound_def)
    then have "takeWhile (\<lambda>x. \<not> v < x) xs ! i \<in> set (takeWhile (\<lambda>x. \<not> v < x) xs)"
      by simp
    then have "\<not> v < takeWhile (\<lambda>x. \<not> v < x) xs ! i"
      by (rule set_takeWhileD [THEN conjunct2])
    then show "xs ! i \<le> v"
      using i by (simp add: takeWhile_nth)
  qed
  show "\<forall>i. upper_bound xs v \<le> i \<and> i < length xs \<longrightarrow> v < xs ! i"
  proof (intro allI impI)
    fix i assume "upper_bound xs v \<le> i \<and> i < length xs"
    then have n: "?n \<le> i" and i: "i < length xs"
      by (simp_all add: upper_bound_def)
    then have "?n < length xs"
      by simp
    then have "\<not> \<not> v < xs ! ?n"
      by (rule nth_length_takeWhile)
    moreover have "xs ! ?n \<le> xs ! i"
      using assms n i by (simp add: sorted_iff_nth_mono)
    ultimately show "v < xs ! i"
      by simp
  qed
qed

lemma filter_upt_below:
  assumes "n \<le> m" and "\<forall>i < m. P i \<longleftrightarrow> i < n"
  shows "filter P [0..<m] = [0..<n]"
proof -
  have "filter P [0..<m] = filter (\<lambda>i. i < n) [0..<m]"
    using assms(2) by (intro filter_cong) auto
  also have "\<dots> = [0..<n]"
    using assms(1)
  proof (induction m)
    case 0
    then show ?case by simp
  next
    case (Suc m)
    show ?case
    proof (cases "n = Suc m")
      case True
      have "filter (\<lambda>i. i < Suc m) [0..<Suc m] = [0..<Suc m]"
        by (intro filter_True) auto
      then show ?thesis
        using True by simp
    next
      case False
      then have "n \<le> m"
        using Suc.prems by simp
      then show ?thesis
        using Suc.IH by simp
    qed
  qed
  finally show ?thesis .
qed

lemma largest_le_sorted:
  assumes "sorted xs"
  shows "largest_le xs v
           = (if upper_bound xs v = 0 then None else Some (upper_bound xs v - 1))"
proof -
  let ?n = "upper_bound xs v"
  note ub = upper_bound_sorted [OF assms, of v]
  have "\<forall>i < length xs. xs ! i \<le> v \<longleftrightarrow> i < ?n"
    using ub(2,3) by (metis leD not_le_imp_less)
  then have "filter (\<lambda>i. xs ! i \<le> v) [0..<length xs] = [0..<?n]"
    using ub(1) by (intro filter_upt_below) auto
  then show ?thesis
    by (cases ?n) (simp_all add: largest_le_def Let_def)
qed

lemma span_no_wrap:
  fixes offs len bo sz :: u64
  assumes le: "bo \<le> offs"
    and req: "uint offs + uint len < 2 ^ 64"
    and ent: "uint bo + uint sz < 2 ^ 64"
  shows "offs + len \<le> bo + sz \<longleftrightarrow> uint offs + uint len \<le> uint bo + uint sz"
    and "uint (offs - bo) = uint offs - uint bo"
    and "uint offs + uint len \<le> uint bo + uint sz \<Longrightarrow> offs - bo + len \<le> sz"
proof -
  have le': "uint bo \<le> uint offs"
    using le by (simp add: word_le_def)
  have sum1: "uint (offs + len) = uint offs + uint len"
    using req by (simp add: uint_add_lem [THEN iffD1])
  have sum2: "uint (bo + sz) = uint bo + uint sz"
    using ent by (simp add: uint_add_lem [THEN iffD1])
  show "offs + len \<le> bo + sz \<longleftrightarrow> uint offs + uint len \<le> uint bo + uint sz"
    by (simp only: word_le_def sum1 sum2)
  show diff: "uint (offs - bo) = uint offs - uint bo"
    using le by (simp add: uint_sub_lem [THEN iffD1] word_le_def)
  have "uint (offs - bo) + uint len < 2 ^ 64"
    using req le' uint_ge_0 [of bo] unfolding diff by linarith
  then have sum3: "uint (offs - bo + len) = uint offs - uint bo + uint len"
    by (simp add: uint_add_lem [THEN iffD1] diff)
  show "offs - bo + len \<le> sz" if "uint offs + uint len \<le> uint bo + uint sz"
    using that unfolding word_le_def sum3 by linarith
qed

text \<open>
  Where no sum wraps around, \<open>readInternal\<close> passes its two assertions and returns what
  the specification says.
\<close>

lemma readInternal_no_wrap:
  assumes srt: "sorted (offsets st)"
    and req: "uint offs + uint len < 2 ^ 64"
    and ent: "\<forall>i < length (offsets st).
                uint (offsets st ! i) + uint (buffer_size (buffers st ! i)) < 2 ^ 64"
  shows "readInternal st offs len = Inr (readInternal_spec st offs len)"
proof (cases "len = 0 \<or> upper_bound (offsets st) offs = 0")
  case True
  then show ?thesis
    using largest_le_sorted [OF srt, of offs]
    by (auto simp add: readInternal_def readInternal_spec_def Let_def)
next
  case False
  let ?i = "upper_bound (offsets st) offs - Suc 0"
  let ?bo = "offsets st ! ?i"
  let ?sz = "buffer_size (buffers st ! ?i)"
  note ub = upper_bound_sorted [OF srt, of offs]
  have pos: "0 < upper_bound (offsets st) offs"
    using False by simp
  have i: "?i < length (offsets st)"
    using pos ub(1) by linarith
  have le: "?bo \<le> offs"
    using pos ub(2) by simp
  have e: "uint ?bo + uint ?sz < 2 ^ 64"
    using ent i by blast
  note sp = span_no_wrap [OF le req e]
  show ?thesis
    using False le sp(1,3) largest_le_sorted [OF srt, of offs]
    by (auto simp add: readInternal_def readInternal_spec_def Let_def)
qed

lemma readInternal_spec_in_buffer:
  assumes "length (offsets st) = length (buffers st)" and "len \<noteq> 0"
    and "readInternal_spec st offs len = (BufferPtr i d, n)"
  shows "n = len \<and> in_buffer st (BufferPtr i d) n"
proof -
  let ?js = "filter (\<lambda>i. offsets st ! i \<le> offs) [0..<length (offsets st)]"
  from assms(2,3) have found: "largest_le (offsets st) offs = Some i"
    and cov: "uint offs + uint len \<le> uint (offsets st ! i) + uint (buffer_size (buffers st ! i))"
    and d: "d = offs - offsets st ! i" and n: "n = len"
    by (auto simp add: readInternal_spec_def split: option.splits if_splits)
  from found have ne: "?js \<noteq> []" and last: "last ?js = i"
    by (auto simp add: largest_le_def Let_def split: if_splits)
  have "last ?js \<in> set ?js"
    using ne by (rule last_in_set)
  then have "i \<in> set ?js"
    by (simp only: last)
  then have i: "i < length (offsets st)" and le: "offsets st ! i \<le> offs"
    by simp_all
  have "uint (offs - offsets st ! i) = uint offs - uint (offsets st ! i)"
    using le by (simp add: uint_sub_lem [THEN iffD1] word_le_def)
  then have "uint d + uint n \<le> uint (buffer_size (buffers st ! i))"
    using cov unfolding d n by linarith
  then show ?thesis
    using i n assms(1) by (simp add: in_buffer_def)
qed

text \<open>
  The two assertions hold, and the span returned lies inside one buffer, for every
  request and index whose sums do not wrap around.
\<close>

lemma readInternal_safe_no_wrap:
  assumes "sorted (offsets st)" and "length (offsets st) = length (buffers st)"
    and "len \<noteq> 0" and "uint offs + uint len < 2 ^ 64"
    and "\<forall>i < length (offsets st).
           uint (offsets st ! i) + uint (buffer_size (buffers st ! i)) < 2 ^ 64"
  shows "readInternal st offs len = Inr (Null, MAX_UINT64)
       \<or> (\<exists>i d. readInternal st offs len = Inr (BufferPtr i d, len)
             \<and> in_buffer st (BufferPtr i d) len)"
proof -
  have ri: "readInternal st offs len = Inr (readInternal_spec st offs len)"
    using assms(1,4,5) by (rule readInternal_no_wrap)
  obtain p n where pn: "readInternal_spec st offs len = (p, n)"
    by (cases "readInternal_spec st offs len") auto
  show ?thesis
  proof (cases p)
    case Null
    then have "n = MAX_UINT64"
      using pn assms(3) by (auto simp add: readInternal_spec_def split: option.splits if_splits)
    then show ?thesis
      using ri pn Null by simp
  next
    case (BufferPtr i d)
    then show ?thesis
      using ri pn readInternal_spec_in_buffer [OF assms(2,3), of offs i d n] by auto
  qed
qed

text \<open>
  C3. The lookup of the claim is \<open>readInternal_spec\<close>. At the request (2^64 - 1, 2)
  on an index holding [0, 10), the required coverage 0 + 10 \<ge> (2^64 - 1) + 2 does not
  hold, so the claim gives the sentinel; in \<open>readInternal\<close> the sum wraps to 1, the
  check and both assertions pass, and a pointer 2^64 - 1 bytes past the start of the
  buffer is returned. At the request (2^64 - 1, 3) on an index holding [5, 15) the claim
  gives the sentinel again and \<open>readInternal\<close> throws from its second assertion.
\<close>

theorem readInternal_wrapping_request:
  "readInternal
      \<lparr>regions = [], offsets = [0], buffers = [Buffer 10], maxMergeDistance = 4,
       wsVRLoad = False, input = \<lparr>stats = None, calls = []\<rparr>\<rparr> 18446744073709551615 2
     = Inr (BufferPtr 0 18446744073709551615, 2)
   \<and> readInternal_spec
      \<lparr>regions = [], offsets = [0], buffers = [Buffer 10], maxMergeDistance = 4,
       wsVRLoad = False, input = \<lparr>stats = None, calls = []\<rparr>\<rparr> 18446744073709551615 2
     = (Null, MAX_UINT64)
   \<and> readInternal
      \<lparr>regions = [], offsets = [5], buffers = [Buffer 10], maxMergeDistance = 4,
       wsVRLoad = False, input = \<lparr>stats = None, calls = []\<rparr>\<rparr> 18446744073709551615 3
     = Inl (DwioEnsure ''Invalid readOffset for read Internal '')
   \<and> readInternal_spec
      \<lparr>regions = [], offsets = [5], buffers = [Buffer 10], maxMergeDistance = 4,
       wsVRLoad = False, input = \<lparr>stats = None, calls = []\<rparr>\<rparr> 18446744073709551615 3
     = (Null, MAX_UINT64)"
  by (simp add: readInternal_def readInternal_spec_def upper_bound_def largest_le_def
      MAX_UINT64_def Let_def)

text \<open>
  C10. The assertions are reachable and a span outside the buffer can be returned. On
  an index holding [0, 16), the request (2^64 - 4, 8) passes the coverage check (the
  sum wraps to 4) and both assertions, and \<open>readInternal\<close> returns a span that starts
  2^64 - 4 bytes past the start of the buffer; \<open>enqueue\<close> hands it out as a ready
  stream. On an index holding [0, 10) and [100, 120), the request (2^64 - 6, 10) passes
  the coverage check and the first assertion and fails the second.
\<close>

theorem readInternal_assertion_reachable:
  "readInternal
      \<lparr>regions = [], offsets = [0], buffers = [Buffer 16], maxMergeDistance = 4,
       wsVRLoad = False, input = \<lparr>stats = None, calls = []\<rparr>\<rparr> 18446744073709551612 8
     = Inr (BufferPtr 0 18446744073709551612, 8)
   \<and> \<not> in_buffer
      \<lparr>regions = [], offsets = [0], buffers = [Buffer 16], maxMergeDistance = 4,
       wsVRLoad = False, input = \<lparr>stats = None, calls = []\<rparr>\<rparr>
      (BufferPtr 0 18446744073709551612) 8
   \<and> enqueue
      \<lparr>regions = [], offsets = [0], buffers = [Buffer 16], maxMergeDistance = 4,
       wsVRLoad = False, input = \<lparr>stats = None, calls = []\<rparr>\<rparr>
      \<lparr>offset = 18446744073709551612, length_r = 8\<rparr>
     = Inr (ArrayStream (BufferPtr 0 18446744073709551612) 8,
            \<lparr>regions = [], offsets = [0], buffers = [Buffer 16], maxMergeDistance = 4,
             wsVRLoad = False, input = \<lparr>stats = None, calls = []\<rparr>\<rparr>)
   \<and> readInternal
      \<lparr>regions = [], offsets = [0, 100], buffers = [Buffer 10, Buffer 20],
       maxMergeDistance = 4, wsVRLoad = False, input = \<lparr>stats = None, calls = []\<rparr>\<rparr>
      18446744073709551610 10
     = Inl (DwioEnsure ''Invalid readOffset for read Internal '')"
  by (simp add: readInternal_def upper_bound_def in_buffer_def enqueue_def readBuffer_def
      MAX_UINT64_def Let_def)

section \<open>enqueue on a region the index already covers\<close>









text \<open>\<open>load\<close> keeps the index well formed when the pending regions are in range.\<close>

lemma separated_disjoint: "separated mmd A B \<Longrightarrow> region_end A \<le> uint (offset B)"
  using uint_ge_0 [of mmd] unfolding separated_def gap_spec_def by linarith

lemma load_index_inv:
  assumes rng: "\<forall>r \<in> set (regions st). in_range r" and inv: "index_inv st"
  shows "index_inv (snd (load fails st))"
proof (cases "regions st = []")
  case True
  then show ?thesis
    using inv by (simp add: load_def)
next
  case False
  obtain e st' where ld: "load fails st = (e, st')"
    by (cases "load fails st") auto
  let ?m = "coalesced_regions st"
  note sep = coalesced_regions_separated [OF False rng]
  from load_result [OF False ld] show ?thesis
  proof (elim disjE exE conjE)
    fix msg
    assume "offsets st' = []" "buffers st' = []"
    then show ?thesis
      using ld by (simp add: index_inv_def index_regions_def)
  next
    fix k
    assume o: "offsets st' = map offset (take k ?m)"
      and b: "buffers st' = buffers_of (take k ?m)"
    have ir: "index_regions st' = take k ?m"
      using o b by (rule index_regions_of)
    have len: "length (offsets st') = length (buffers st')"
      using o b by (simp add: buffers_of_def)
    have "sorted_wrt (separated (maxMergeDistance st)) (take k ?m)"
      using sep by (simp add: pairwise_separated_def sorted_wrt_take)
    then have "sorted_wrt (\<lambda>A B. region_end A \<le> uint (offset B)) (take k ?m)"
      by (rule sorted_wrt_mono_rel [rotated]) (simp add: separated_disjoint)
    moreover have "list_all in_range (take k ?m)"
      using sep by (auto simp add: list_all_iff dest: in_set_takeD)
    ultimately show ?thesis
      using ld ir len by (simp add: index_inv_def)
  qed
qed

section \<open>ParallelFor\<close>

lemma subranges_length: "length (subranges start len extra k) = k"
  by (induction k arbitrary: start extra) (simp_all add: Let_def)

lemma upt_append_next: "[a..<a + n] @ [a + n..<a + n + m] = [a..<a + n + m]"
  using upt_add_eq_append [of a "a + n" m] by simp

lemma subranges_cover:
  "extra \<le> k \<Longrightarrow>
     concat (map (\<lambda>r. [fst r..<snd r]) (subranges start len extra k))
       = [start..<start + (len * k + extra)]"
proof (induction k arbitrary: start extra)
  case 0
  then show ?case by simp
next
  case (Suc k)
  show ?case
  proof (cases extra)
    case 0
    have "concat (map (\<lambda>r. [fst r..<snd r]) (subranges (start + len) len 0 k))
        = [start + len..<start + len + (len * k + 0)]"
      by (rule Suc.IH) simp
    then have "concat (map (\<lambda>r. [fst r..<snd r]) (subranges start len extra (Suc k)))
        = [start..<start + len] @ [start + len..<start + len + (len * k + 0)]"
      by (simp add: 0)
    also have "\<dots> = [start..<start + len + (len * k + 0)]"
      by (rule upt_append_next)
    also have "start + len + (len * k + 0) = start + (len * Suc k + extra)"
      by (simp add: 0)
    finally show ?thesis .
  next
    case (Suc e)
    have "e \<le> k"
      using Suc.prems Suc by simp
    then have "concat (map (\<lambda>r. [fst r..<snd r]) (subranges (start + Suc len) len e k))
        = [start + Suc len..<start + Suc len + (len * k + e)]"
      by (rule Suc.IH)
    then have "concat (map (\<lambda>r. [fst r..<snd r]) (subranges start len extra (Suc k)))
        = [start..<start + Suc len] @ [start + Suc len..<start + Suc len + (len * k + e)]"
      by (simp add: Suc)
    also have "\<dots> = [start..<start + Suc len + (len * k + e)]"
      by (rule upt_append_next)
    also have "start + Suc len + (len * k + e) = start + (len * Suc k + extra)"
      by (simp add: Suc)
    finally show ?thesis .
  qed
qed

lemma splitRange_cover:
  assumes "range_from pf \<le> range_to pf" and "0 < degree pf"
  shows "concat (map (\<lambda>r. [fst r..<snd r]) (splitRange pf)) = [range_from pf..<range_to pf]"
proof -
  let ?N = "range_to pf - range_from pf" and ?D = "degree pf"
  have "?N mod ?D \<le> ?D"
    using mod_less_divisor [OF assms(2), of ?N] by (rule less_imp_le)
  then have "concat (map (\<lambda>r. [fst r..<snd r]) (splitRange pf))
      = [range_from pf..<range_from pf + ((?N div ?D) * ?D + ?N mod ?D)]"
    unfolding splitRange_def by (rule subranges_cover)
  also have "range_from pf + ((?N div ?D) * ?D + ?N mod ?D) = range_to pf"
    using assms(1) by simp
  finally show ?thesis .
qed

lemma submit_all_for_each:
  "submit_all (for_each func) rs (ex, w)
     = (ex\<lparr>count := count ex + length rs\<rparr>,
        fold func (concat (map (\<lambda>r. [fst r..<snd r]) rs)) w)"
  by (induction rs arbitrary: ex w) (simp_all add: CountingExecutor_add_def for_each_def)

lemma submit_all_visit_range:
  "submit_all (\<lambda>r. visit_range (fst r) (snd r)) rs (ex, w)
     = (ex\<lparr>count := count ex + length rs\<rparr>,
        fold visit (concat (map (\<lambda>r. [fst r..<snd r]) rs)) w)"
  by (induction rs arbitrary: ex w) (simp_all add: CountingExecutor_add_def visit_range_def)

text \<open>
  The user functions of either mode reach the same indices, once each, in
  \<open>[from, to)\<close>, and the executor gets one task per sub-range.
\<close>

lemma execute_visits:
  assumes "range_from pf \<le> range_to pf"
  shows "execute_index pf visit (ex, w)
           = (ex\<lparr>count := count ex + (if 1 < degree pf then degree pf else 0)\<rparr>,
              fold visit [range_from pf..<range_to pf] w)"
    and "execute_range pf visit_range (ex, w)
           = (ex\<lparr>count := count ex + (if 1 < degree pf then degree pf else 0)\<rparr>,
              fold visit [range_from pf..<range_to pf] w)"
proof -
  have len: "length (splitRange pf) = degree pf"
    by (simp add: splitRange_def subranges_length)
  have cov: "1 < degree pf \<Longrightarrow>
      concat (map (\<lambda>r. [fst r..<snd r]) (splitRange pf)) = [range_from pf..<range_to pf]"
    using splitRange_cover [OF assms] by simp
  show "execute_index pf visit (ex, w)
           = (ex\<lparr>count := count ex + (if 1 < degree pf then degree pf else 0)\<rparr>,
              fold visit [range_from pf..<range_to pf] w)"
    using len cov by (simp add: execute_index_def submit_all_for_each for_each_def)
  show "execute_range pf visit_range (ex, w)
           = (ex\<lparr>count := count ex + (if 1 < degree pf then degree pf else 0)\<rparr>,
              fold visit [range_from pf..<range_to pf] w)"
    using len cov by (simp add: execute_range_def submit_all_visit_range visit_range_def)
qed

lemma fold_visit:
  assumes "set xs \<subseteq> dom (indexInvoked w)"
  shows "fold visit xs w
           = w\<lparr>indexInvoked := (\<lambda>i. map_option (\<lambda>n. n + count_list xs i) (indexInvoked w i))\<rparr>"
  using assms
proof (induction xs arbitrary: w)
  case Nil
  then show ?case
    by (simp add: option.map_ident)
next
  case (Cons x xs)
  then obtain n where n: "indexInvoked w x = Some n"
    by auto
  let ?w = "w\<lparr>indexInvoked := (indexInvoked w)(x \<mapsto> n + 1)\<rparr>"
  have step: "visit x w = ?w"
    using n by (simp add: visit_def)
  have "set xs \<subseteq> dom (indexInvoked ?w)"
    using Cons.prems by auto
  from Cons.IH [OF this] have "fold visit xs ?w
      = ?w\<lparr>indexInvoked := (\<lambda>i. map_option (\<lambda>m. m + count_list xs i) (indexInvoked ?w i))\<rparr>" .
  moreover have "(\<lambda>i. map_option (\<lambda>m. m + count_list xs i) (indexInvoked ?w i))
      = (\<lambda>i. map_option (\<lambda>m. m + count_list (x # xs) i) (indexInvoked w i))"
    using n by (intro ext) (auto simp add: map_option_case split: option.splits)
  ultimately show ?case
    using step by simp
qed

lemma count_list_upt: "count_list [f..<t] i = (if f \<le> i \<and> i < t then 1 else 0)"
  by (induction t) auto

lemma visit_counters:
  "fold visit [f..<t] (indexInvoked_init f t)
     = \<lparr>indexInvoked = (\<lambda>i. if f \<le> i \<and> i < t then Some 1 else None), found_all = True\<rparr>"
proof -
  let ?w = "indexInvoked_init f t"
  have "set [f..<t] \<subseteq> dom (indexInvoked ?w)"
    by (auto simp add: indexInvoked_init_def)
  from fold_visit [OF this]
  have "fold visit [f..<t] ?w
      = ?w\<lparr>indexInvoked :=
             (\<lambda>i. map_option (\<lambda>n. n + count_list [f..<t] i) (indexInvoked ?w i))\<rparr>" .
  moreover have "(\<lambda>i. map_option (\<lambda>n. n + count_list [f..<t] i) (indexInvoked ?w i))
      = (\<lambda>i. if f \<le> i \<and> i < t then Some 1 else None)"
    by (intro ext) (simp add: indexInvoked_init_def count_list_upt)
  ultimately show ?thesis
    by (simp add: indexInvoked_init_def)
qed

text \<open>
  C4. For every half-open range \<open>[from, to)\<close> with \<open>from \<le> to\<close>, every parallelism
  factor and both modes, the test's run of \<open>ParallelFor::execute\<close> ends with the counter
  of every index of \<open>[from, to)\<close> at 1, no counter outside it, and no visit to an index
  that has no counter: each integer of the range is visited exactly once and no other
  integer is visited.
\<close>

theorem parallelFor_visits_each_once:
  assumes "f \<le> t"
  shows "\<exists>ex' w. testParallelFor ex f t p mode = Inr (ex', w)
           \<and> found_all w
           \<and> (\<forall>i. indexInvoked w i = (if f \<le> i \<and> i < t then Some 1 else None))"
proof -
  let ?pf = "\<lparr>range_from = f, range_to = t, parallelismFactor = p\<rparr>"
  let ?w = "\<lparr>indexInvoked = (\<lambda>i. if f \<le> i \<and> i < t then Some 1 else None), found_all = True\<rparr>"
  have new: "ParallelFor_new f t p = Inr ?pf"
    using assms by (simp add: ParallelFor_new_def)
  have le: "range_from ?pf \<le> range_to ?pf"
    using assms by simp
  have index: "snd (execute_index ?pf visit (ex, indexInvoked_init f t)) = ?w"
    using execute_visits(1) [OF le, of ex "indexInvoked_init f t"] by (simp add: visit_counters)
  have range: "snd (execute_range ?pf visit_range (ex, indexInvoked_init f t)) = ?w"
    using execute_visits(2) [OF le, of ex "indexInvoked_init f t"] by (simp add: visit_counters)
  show ?thesis
  proof (cases mode)
    case INDEX
    then have "testParallelFor ex f t p mode
        = Inr (fst (execute_index ?pf visit (ex, indexInvoked_init f t)), ?w)"
      using new index by (simp add: testParallelFor_def prod_eq_iff)
    then show ?thesis
      by simp
  next
    case RANGE
    then have "testParallelFor ex f t p mode
        = Inr (fst (execute_range ?pf visit_range (ex, indexInvoked_init f t)), ?w)"
      using new range by (simp add: testParallelFor_def prod_eq_iff)
    then show ?thesis
      by simp
  qed
qed

theorem parallelFor_visits_each_once_witness:
  "\<exists>ex' w. testParallelFor \<lparr>count = 0\<rparr> 3 10 4 RANGE = Inr (ex', w)
           \<and> found_all w
           \<and> indexInvoked w 2 = None \<and> indexInvoked w 3 = Some 1
           \<and> indexInvoked w 9 = Some 1 \<and> indexInvoked w 10 = None"
proof -
  have "(3::nat) \<le> 10"
    by simp
  from parallelFor_visits_each_once [OF this, of "\<lparr>count = 0\<rparr>" 4 RANGE]
  show ?thesis
    by auto
qed



end
